theory Spec2Isabelle
  imports Main "HOL-Library.Word"
begin

unbundle bit_operations_syntax

section \<open>Event codec (internal/pagetrace/parser.go)\<close>

text \<open>
  Go's \<open>uint64\<close> and \<open>int64\<close> are both 64-bit words: \<open>+\<close>, \<open>-\<close> and \<open>*\<close> wrap,
  a conversion between the two keeps the bits, unsigned comparison is \<open><\<close> and signed
  comparison is \<open><s\<close>. \<open>uint8\<close> is an 8-bit word, \<open>int32\<close> a 32-bit word.
  A Go panic is the value \<open>None\<close> of an option result.
\<close>

type_synonym eventHeader = "64 word"
type_synonym eventKind = "8 word"

definition sync :: eventKind where "sync = 0"
definition alloc :: eventKind where "alloc = 1"
definition free :: eventKind where "free = 2"
definition scav :: eventKind where "scav = 3"
definition pid :: eventKind where "pid = 4"
definition allocLarge :: eventKind where "allocLarge = 5"
definition freeLarge :: eventKind where "freeLarge = 6"
definition scavLarge :: eventKind where "scavLarge = 7"

definition kindBits :: nat where "kindBits = 3"
definition kindMask :: "64 word" where "kindMask = push_bit kindBits 1 - 1"
definition pageShift :: nat where "pageShift = 13"
definition pageSize :: "64 word" where "pageSize = push_bit pageShift 1"
definition timeLostBits :: nat where "timeLostBits = 7"
definition timeDeltaBits :: nat where "timeDeltaBits = 16"
definition heapAddrBits :: nat where "heapAddrBits = 48"

text \<open>\<open>kind\<close>: the low three bits of the header, as a \<open>uint8\<close>.\<close>

definition kind :: "eventHeader \<Rightarrow> eventKind" where
  "kind e = ucast (e AND kindMask)"

text \<open>\<open>large\<close> panics on a pid or sync header.\<close>

definition large :: "eventHeader \<Rightarrow> bool option" where
  "large e = (if kind e = pid \<or> kind e = sync then None
              else Some ((e AND push_bit 2 1) \<noteq> 0))"

definition kindNoLarge :: "eventHeader \<Rightarrow> eventKind" where
  "kindNoLarge e = ucast (e AND drop_bit 1 kindMask)"

text \<open>
  \<open>pid\<close> (the accessor; the constant of that name is the event kind): an arithmetic
  shift of the word read as \<open>int64\<close>, truncated to \<open>int32\<close>. Panics unless the kind
  is pid.
\<close>

definition header_pid :: "eventHeader \<Rightarrow> 32 word option" where
  "header_pid e = (if kind e \<noteq> pid then None
                   else Some (ucast (signed_drop_bit kindBits e)))"

definition timestamp :: "eventHeader \<Rightarrow> 64 word option" where
  "timestamp e = (if kind e \<noteq> sync then None
                  else Some (push_bit (timeLostBits - kindBits) (e AND NOT kindMask)))"

definition timestampDelta :: "eventHeader \<Rightarrow> 64 word option" where
  "timestampDelta e = (if kind e = pid \<or> kind e = sync then None
                       else Some (drop_bit ((64 - timeDeltaBits) - timeLostBits) e))"

definition base :: "eventHeader \<Rightarrow> 64 word option" where
  "base e = (if kind e = pid \<or> kind e = sync then None
             else Some (e AND NOT (pageSize - 1) AND (push_bit heapAddrBits 1 - 1)))"

definition npagesSmall :: "eventHeader \<Rightarrow> 64 word option" where
  "npagesSmall e = (if kind e = pid \<or> kind e = sync \<or> large e \<noteq> Some False then None
                    else Some (drop_bit kindBits e AND (push_bit 10 1 - 1)))"

text \<open>The 16-bit field that the trace format stores in bits 48..63 of a memory event.\<close>

definition deltaField :: "eventHeader \<Rightarrow> 64 word" where
  "deltaField e = drop_bit (64 - timeDeltaBits) e"

section \<open>Decoded events\<close>

type_synonym Kind = "8 word"

definition EventBad :: Kind where "EventBad = 0"
definition EventAllocate :: Kind where "EventAllocate = 1"
definition EventFree :: Kind where "EventFree = 2"
definition EventScavenge :: Kind where "EventScavenge = 3"

record Event =
  Kind :: Kind
  P :: "32 word"
  Time :: "64 word"
  Base :: "64 word"
  Size :: "64 word"

section \<open>Simulator and State (internal/pagetrace/simulator.go)\<close>

text \<open>
  A byte slice is \<open>None\<close> when it is \<open>nil\<close> (the zero State) and \<open>Some bs\<close> otherwise:
  \<open>update\<close> tests \<open>s.allocBits == nil\<close>, and \<open>make([]byte, 0)\<close> is empty but not nil.
  Memory is not bounded: \<open>make\<close> and \<open>append\<close> always succeed.
\<close>

record State =
  minAddr :: "64 word"
  allocBits :: "8 word list option"
  scavBits :: "8 word list option"

record Simulator =
  clock :: "64 word"
  state :: State

definition State0 :: State where
  "State0 = \<lparr>minAddr = 0, allocBits = None, scavBits = None\<rparr>"

definition Simulator0 :: Simulator where
  "Simulator0 = \<lparr>clock = 0, state = State0\<rparr>"

text \<open>\<open>len\<close> of a slice and its elements (\<open>nil\<close> has none).\<close>

definition len :: "'a list option \<Rightarrow> nat" where
  "len s = (case s of None \<Rightarrow> 0 | Some bs \<Rightarrow> length bs)"

definition elems :: "'a list option \<Rightarrow> 'a list" where
  "elems s = (case s of None \<Rightarrow> [] | Some bs \<Rightarrow> bs)"

definition alignUp :: "64 word \<Rightarrow> 64 word \<Rightarrow> 64 word" where
  "alignUp x align = (x + align - 1) AND NOT (align - 1)"

definition alignDown :: "64 word \<Rightarrow> 64 word \<Rightarrow> 64 word" where
  "alignDown x align = x AND NOT (align - 1)"

definition bitmapSize :: "64 word \<Rightarrow> 64 word \<Rightarrow> nat" where
  "bitmapSize lo hi = unat (alignUp (alignUp (hi - lo) pageSize div pageSize) 8 div 8)"

definition State_Size :: "State \<Rightarrow> 64 word" where
  "State_Size s = of_nat (len (allocBits s)) * 8 * pageSize"

definition MinAddr :: "State \<Rightarrow> 64 word" where
  "MinAddr s = minAddr s"

definition MaxAddr :: "State \<Rightarrow> 64 word" where
  "MaxAddr s = minAddr s + State_Size s"

text \<open>
  Reading bit \<open>off % 8\<close> of byte \<open>off / 8\<close> of a slice; an index outside the slice
  panics.
\<close>

definition bitAt :: "8 word list option \<Rightarrow> 64 word \<Rightarrow> bool option" where
  "bitAt bits off =
     (if unat (off div 8) < len bits
      then Some ((elems bits ! unat (off div 8)) AND push_bit (unat (off mod 8)) 1 \<noteq> 0)
      else None)"

definition IsAllocated :: "State \<Rightarrow> 64 word \<Rightarrow> bool option" where
  "IsAllocated s addr =
     (if addr < MinAddr s \<or> addr \<ge> MaxAddr s then Some False
      else bitAt (allocBits s) ((addr - minAddr s) div pageSize))"

definition IsScavenged :: "State \<Rightarrow> 64 word \<Rightarrow> bool option" where
  "IsScavenged s addr =
     (if addr < MinAddr s \<or> addr \<ge> MaxAddr s then Some True
      else bitAt (scavBits s) ((addr - minAddr s) div pageSize))"

text \<open>
  The loop of \<open>Allocated\<close>: \<open>for i := start; i < end; i += pageSize\<close>. The counter
  wraps like any \<open>uint64\<close>, so the loop is a partial function: \<open>None\<close> is "no value
  returned" (a panic of \<open>IsAllocated\<close>, or a loop that never ends).
\<close>

partial_function (option) Allocated_loop ::
  "State \<Rightarrow> 64 word \<Rightarrow> 64 word \<Rightarrow> 64 word \<Rightarrow> 64 word \<Rightarrow> 64 word \<Rightarrow> 64 word option" where
  "Allocated_loop s addr sz lim i acc =
     (if i < lim then
        (case IsAllocated s i of
           None \<Rightarrow> None
         | Some b \<Rightarrow>
             Allocated_loop s addr sz lim (i + pageSize)
               (if \<not> b then acc
                else if i < addr then acc + (alignUp addr pageSize - i)
                else if i + pageSize > addr + sz then acc + (addr + sz - i)
                else acc + pageSize))
      else Some acc)"

definition Allocated :: "State \<Rightarrow> 64 word \<Rightarrow> 64 word \<Rightarrow> 64 word option" where
  "Allocated s addr sz =
     (let start = alignDown addr pageSize;
          start = (if start < MinAddr s then MinAddr s else start);
          lim = alignUp (addr + sz) pageSize;
          lim = (if lim > MaxAddr s then MaxAddr s else lim)
      in Allocated_loop s addr sz lim start 0)"

partial_function (option) Scavenged_loop ::
  "State \<Rightarrow> 64 word \<Rightarrow> 64 word \<Rightarrow> 64 word \<Rightarrow> 64 word \<Rightarrow> 64 word \<Rightarrow> 64 word option" where
  "Scavenged_loop s addr sz lim i acc =
     (if i < lim then
        (case IsScavenged s i of
           None \<Rightarrow> None
         | Some b \<Rightarrow>
             Scavenged_loop s addr sz lim (i + pageSize)
               (if \<not> b then acc
                else if i < addr then acc + (alignUp addr pageSize - i)
                else if i + pageSize > addr + sz then acc + (addr + sz - i)
                else acc + pageSize))
      else Some acc)"

definition Scavenged :: "State \<Rightarrow> 64 word \<Rightarrow> 64 word \<Rightarrow> 64 word option" where
  "Scavenged s addr sz =
     (let start = alignDown addr pageSize;
          start = (if start < MinAddr s then MinAddr s else start);
          lim = alignUp (addr + sz) pageSize;
          lim = (if lim > MaxAddr s then MaxAddr s else lim)
      in Scavenged_loop s addr sz lim start 0)"

text \<open>\<open>Clone\<close>: \<open>make\<close> and \<open>copy\<close> give slices that are never nil.\<close>

definition Clone :: "State \<Rightarrow> State" where
  "Clone s = s\<lparr>allocBits := Some (elems (allocBits s)), scavBits := Some (elems (scavBits s))\<rparr>"

definition SetState :: "Simulator \<Rightarrow> State \<Rightarrow> Simulator" where
  "SetState sim st = sim\<lparr>state := Clone st\<rparr>"

text \<open>
  The first half of \<open>update\<close> (up to the loop): the bitmaps are made, or grown at the
  back and at the front. \<open>extendBack\<close> is
  \<open>if len(bits) < newSize { bits = append(bits, make([]byte, newSize-len(bits))...) }\<close>
  and \<open>extendFront\<close> the same with the new bytes in front. In the front branch
  \<open>s.minAddr\<close> is assigned before \<open>s.MaxAddr()\<close> is read, as in the source.
\<close>

definition extendBack :: "8 word list option \<Rightarrow> nat \<Rightarrow> 8 word list option" where
  "extendBack bits newSize =
     (if len bits < newSize then Some (elems bits @ replicate (newSize - len bits) 0) else bits)"

definition extendFront :: "8 word list option \<Rightarrow> nat \<Rightarrow> 8 word list option" where
  "extendFront bits newSize =
     (if len bits < newSize then Some (replicate (newSize - len bits) 0 @ elems bits) else bits)"

definition grow :: "State \<Rightarrow> Event \<Rightarrow> State" where
  "grow s e =
     (let lo = Base e; hi = Base e + Size e in
      if allocBits s = None then
        s\<lparr>minAddr := lo,
          allocBits := Some (replicate (bitmapSize lo hi) 0),
          scavBits := Some (replicate (bitmapSize lo hi) 0)\<rparr>
      else
        let s1 = (if hi > MaxAddr s then
                    let newSize = bitmapSize (MinAddr s) hi
                    in s\<lparr>allocBits := extendBack (allocBits s) newSize,
                         scavBits := extendBack (scavBits s) newSize\<rparr>
                  else s)
        in if lo < MinAddr s1 then
             let s2 = s1\<lparr>minAddr := lo\<rparr>;
                 newSize = bitmapSize (MinAddr s2) (MaxAddr s2)
             in s2\<lparr>allocBits := extendFront (allocBits s2) newSize,
                   scavBits := extendFront (scavBits s2) newSize\<rparr>
           else s1)"

text \<open>
  \<open>bits[i/8] |= 1 << (i%8)\<close> and \<open>bits[i/8] &^= 1 << (i%8)\<close>; \<open>None\<close> is the panic of an
  index outside the slice.
\<close>

definition setBit :: "8 word list option \<Rightarrow> 64 word \<Rightarrow> 8 word list option" where
  "setBit bits i =
     (if unat (i div 8) < len bits
      then Some ((elems bits)[unat (i div 8) :=
                   (elems bits ! unat (i div 8)) OR push_bit (unat (i mod 8)) 1])
      else None)"

definition clearBit :: "8 word list option \<Rightarrow> 64 word \<Rightarrow> 8 word list option" where
  "clearBit bits i =
     (if unat (i div 8) < len bits
      then Some ((elems bits)[unat (i div 8) :=
                   (elems bits ! unat (i div 8)) AND NOT (push_bit (unat (i mod 8)) 1)])
      else None)"

text \<open>
  The loop of \<open>update\<close>, \<open>for i := off; i < lim; i++\<close>, with the \<open>switch\<close> on the kind as
  its body; the \<open>default\<close> case returns from \<open>update\<close>.
\<close>

function update_loop :: "Kind \<Rightarrow> 64 word \<Rightarrow> 64 word \<Rightarrow> State \<Rightarrow> State option" where
  "update_loop k lim i s =
     (if i < lim then
        (if k = EventAllocate then
           (case setBit (allocBits s) i of
              None \<Rightarrow> None
            | Some a \<Rightarrow>
                (case clearBit (scavBits s) i of
                   None \<Rightarrow> None
                 | Some c \<Rightarrow> update_loop k lim (i + 1) (s\<lparr>allocBits := Some a, scavBits := Some c\<rparr>)))
         else if k = EventFree then
           (case clearBit (allocBits s) i of
              None \<Rightarrow> None
            | Some a \<Rightarrow> update_loop k lim (i + 1) (s\<lparr>allocBits := Some a\<rparr>))
         else if k = EventScavenge then
           (case setBit (scavBits s) i of
              None \<Rightarrow> None
            | Some c \<Rightarrow> update_loop k lim (i + 1) (s\<lparr>scavBits := Some c\<rparr>))
         else Some s)
      else Some s)"
  by pat_completeness auto
termination
proof (relation "measure (\<lambda>(k, lim, i, s). unat lim - unat i)")
  have step: "unat lim - unat (i + 1) < unat lim - unat i" if "i < lim" for i lim :: "64 word"
    using that by unat_arith
  show "wf (measure (\<lambda>(k, lim, i, s). unat lim - unat i))"
    by simp
  show "((k, lim, i + 1, s\<lparr>allocBits := Some a, scavBits := Some c\<rparr>), k, lim, i, s)
      \<in> measure (\<lambda>(k, lim, i, s). unat lim - unat i)" if "i < lim"
    for k :: Kind and lim i :: "64 word" and s :: State and a c :: "8 word list"
    using step [OF that] by simp
  show "((k, lim, i + 1, s\<lparr>allocBits := Some a\<rparr>), k, lim, i, s)
      \<in> measure (\<lambda>(k, lim, i, s). unat lim - unat i)" if "i < lim"
    for k :: Kind and lim i :: "64 word" and s :: State and a :: "8 word list"
    using step [OF that] by simp
  show "((k, lim, i + 1, s\<lparr>scavBits := Some c\<rparr>), k, lim, i, s)
      \<in> measure (\<lambda>(k, lim, i, s). unat lim - unat i)" if "i < lim"
    for k :: Kind and lim i :: "64 word" and s :: State and c :: "8 word list"
    using step [OF that] by simp
qed

declare update_loop.simps [simp del]

definition update :: "State \<Rightarrow> Event \<Rightarrow> State option" where
  "update s e =
     (let s1 = grow s e;
          off = (Base e - minAddr s1) div pageSize
      in update_loop (Kind e) ((Base e + Size e - minAddr s1) div pageSize) off s1)"

text \<open>\<open>Feed\<close>: the clock is set, then the state updated (\<open>None\<close>: \<open>update\<close> panicked).\<close>

definition Feed :: "Simulator \<Rightarrow> Event \<Rightarrow> Simulator option" where
  "Feed sim e =
     (case update (state sim) e of
        None \<Rightarrow> None
      | Some st \<Rightarrow> Some (sim\<lparr>clock := Time e, state := st\<rparr>))"

text \<open>
  The property "no page is both allocated and scavenged", on the bitmaps themselves:
  the two slices have the same length and no bit is set in both.
\<close>

definition noBothSet :: "State \<Rightarrow> bool" where
  "noBothSet s = list_all2 (\<lambda>a c. a AND c = 0) (elems (allocBits s)) (elems (scavBits s))"

text \<open>
  \<open>Validate\<close> returns an \<open>error\<close>: \<open>None\<close> is \<open>nil\<close>; the constructors of \<open>verror\<close> are
  the six \<open>fmt.Errorf\<close> messages with their arguments. The outer option is \<open>None\<close>
  when \<open>Allocated\<close> returns no value.
\<close>

datatype verror = BadEvent | BaseNotAligned "64 word" | SizeNotAligned "64 word" | OutOfOrder
  | DoubleAllocation "64 word" | DoubleFree "64 word" "64 word"

definition Validate :: "Simulator \<Rightarrow> Event \<Rightarrow> verror option option" where
  "Validate sim e =
     (if Kind e = EventBad then Some (Some BadEvent)
      else if Base e mod pageSize \<noteq> 0 then Some (Some (BaseNotAligned (Base e)))
      else if Size e mod pageSize \<noteq> 0 then Some (Some (SizeNotAligned (Size e)))
      else if Time e <s clock sim then Some (Some OutOfOrder)
      else if Kind e = EventAllocate then
        (case Allocated (state sim) (Base e) (Size e) of
           None \<Rightarrow> None
         | Some amt \<Rightarrow> if amt \<noteq> 0 then Some (Some (DoubleAllocation amt)) else Some None)
      else if Kind e = EventFree then
        (case Allocated (state sim) (Base e) (Size e) of
           None \<Rightarrow> None
         | Some amt \<Rightarrow> if amt \<noteq> Size e then Some (Some (DoubleFree (Size e) amt)) else Some None)
      else Some None)"


section \<open>Trace container and indexer\<close>

text \<open>
  Byte offsets and lengths (\<open>int64\<close> and \<open>int\<close> in the source) are modelled as \<open>int\<close>:
  they are bounded by the length of the byte source. Timestamps are \<open>int64\<close> read from
  the trace, so they stay 64-bit words, compared as signed numbers.
  The \<open>io.ReaderAt\<close> is a finite byte string; \<open>ReadAt\<close> fails only by reading past its
  end (or at a negative offset).
\<close>

record interval =
  iv_start :: int
  iv_end :: int
  iv_startTime :: "64 word"
  iv_endTime :: "64 word"

record Trace =
  r :: "8 word list"
  blocks :: "interval list list"
  minTraceTime :: "64 word"
  startTime :: "64 word"
  endTime :: "64 word"
  tr_minAddr :: "64 word"
  tr_maxAddr :: "64 word"

datatype perror = NotMultipleOf8 | ExpectedSync | ReadFailed | WrongPid | EndOfStream | Panic

text \<open>\<open>binary.LittleEndian.Uint64\<close> of (up to) eight bytes.\<close>

fun le64 :: "8 word list \<Rightarrow> 64 word" where
  "le64 [] = 0"
| "le64 (b # bs) = ucast b OR push_bit 8 (le64 bs)"

text \<open>\<open>ReadAt\<close> of eight bytes, as \<open>read8\<close> uses it: an error unless all eight are read.\<close>

definition ReadAt8 :: "8 word list \<Rightarrow> int \<Rightarrow> 8 word list option" where
  "ReadAt8 rd off =
     (if 0 \<le> off \<and> off + 8 \<le> int (length rd) then Some (take 8 (drop (nat off) rd)) else None)"

text \<open>\<open>pidIndex\<close>: \<open>int(pid + 1)\<close>, the addition in \<open>int32\<close>; \<open>pidFromIndex\<close>: \<open>int32(pidx - 1)\<close>.\<close>

definition pidIndex :: "32 word \<Rightarrow> int" where
  "pidIndex p = sint (p + 1)"

definition pidFromIndex :: "int \<Rightarrow> 32 word" where
  "pidFromIndex pidx = word_of_int (pidx - 1)"

text \<open>
  The local variables of \<open>NewTrace\<close>. \<open>cur\<close> points at the interval that is being filled:
  \<open>None\<close> is the initial \<open>new(interval)\<close>, which belongs to no block, and \<open>Some (idx, k)\<close>
  is \<open>&t.blocks[idx][k]\<close>. The pointer is always re-taken right after the \<open>append\<close> that
  may move the block, so a write through it reaches the block list.
\<close>

record indexer =
  expectNpagesTrailer :: bool
  wantTime :: bool
  ix_startTime :: "64 word"
  ix_endTime :: "64 word"
  syncTime :: "64 word"
  ix_minAddr :: "64 word"
  ix_maxAddr :: "64 word"
  npagesTrailerBaseAddr :: "64 word"
  cur :: "(nat \<times> nat) option"
  ix_blocks :: "interval list list"

definition indexer0 :: indexer where
  "indexer0 = \<lparr>expectNpagesTrailer = False, wantTime = False, ix_startTime = 0, ix_endTime = 0,
     syncTime = 0, ix_minAddr = 0, ix_maxAddr = 0, npagesTrailerBaseAddr = 0, cur = None,
     ix_blocks = []\<rparr>"

definition interval0 :: interval where
  "interval0 = \<lparr>iv_start = 0, iv_end = 0, iv_startTime = 0, iv_endTime = 0\<rparr>"

text \<open>A write through \<open>cur\<close>.\<close>

definition write_cur :: "(interval \<Rightarrow> interval) \<Rightarrow> indexer \<Rightarrow> indexer" where
  "write_cur f ix =
     (case cur ix of
        None \<Rightarrow> ix
      | Some (idx, k) \<Rightarrow>
          ix\<lparr>ix_blocks := (ix_blocks ix)[idx := (ix_blocks ix ! idx)[k := f (ix_blocks ix ! idx ! k)]]\<rparr>)"

text \<open>
  The first part of the loop body for a header \<open>e\<close> that is not a pid: the time and
  address extents. It returns the indexer and \<open>curTime\<close>.
\<close>

definition index_extents :: "eventHeader \<Rightarrow> indexer \<Rightarrow> (indexer \<times> 64 word) option" where
  "index_extents e ix =
     (if kind e = sync then
        (case timestamp e of
           None \<Rightarrow> None
         | Some t \<Rightarrow> Some (ix\<lparr>syncTime := t\<rparr>, t))
      else
        (case (large e, base e, timestampDelta e) of
           (Some lg, Some mn, Some d) \<Rightarrow>
             let ix1 = (if lg then ix\<lparr>expectNpagesTrailer := True\<rparr> else ix);
                 ix2 = (if ix_minAddr ix1 = 0 \<or> mn < ix_minAddr ix1 then ix1\<lparr>ix_minAddr := mn\<rparr> else ix1)
             in if lg then Some (ix2\<lparr>npagesTrailerBaseAddr := mn\<rparr>, syncTime ix2 + d)
                else (case npagesSmall e of
                        None \<Rightarrow> None
                      | Some np \<Rightarrow>
                          let mx = mn + np * pageSize;
                              ix3 = (if ix_maxAddr ix2 = 0 \<or> mx > ix_maxAddr ix2
                                     then ix2\<lparr>ix_maxAddr := mx\<rparr> else ix2)
                          in Some (ix3, syncTime ix3 + d))
         | _ \<Rightarrow> None))"

text \<open>
  The loop body of \<open>NewTrace\<close> for the word \<open>w\<close> at byte offset \<open>off = cursor + j\<close>.
  \<open>Inl Panic\<close>: an accessor called on the wrong kind, or \<open>t.blocks[idx]\<close> with a
  negative \<open>idx\<close>.
\<close>

definition index_word :: "int \<Rightarrow> 64 word \<Rightarrow> indexer \<Rightarrow> perror + indexer" where
  "index_word off w ix =
     (if expectNpagesTrailer ix then
        (let mx = npagesTrailerBaseAddr ix + w * pageSize;
             ix1 = (if ix_maxAddr ix = 0 \<or> mx > ix_maxAddr ix then ix\<lparr>ix_maxAddr := mx\<rparr> else ix)
         in Inr (ix1\<lparr>expectNpagesTrailer := False\<rparr>))
      else
        (case (if kind w \<noteq> pid
               then (case index_extents w ix of
                       None \<Rightarrow> None
                     | Some (ix1, curTime) \<Rightarrow>
                         Some (if ix_endTime ix1 <s curTime then ix1\<lparr>ix_endTime := curTime\<rparr> else ix1,
                               curTime))
               else Some (ix, 0)) of
           None \<Rightarrow> Inl Panic
         | Some (ix1, curTime) \<Rightarrow>
             if wantTime ix1 then
               (if kind w \<noteq> sync then Inl ExpectedSync
                else (case timestamp w of
                        None \<Rightarrow> Inl Panic
                      | Some t \<Rightarrow>
                          let ix2 = (if ix_startTime ix1 = 0 \<or> t <s ix_startTime ix1
                                     then ix1\<lparr>ix_startTime := t\<rparr> else ix1);
                              ix3 = write_cur (\<lambda>iv. iv\<lparr>iv_startTime := t\<rparr>) ix2
                          in Inr (ix3\<lparr>wantTime := False\<rparr>)))
             else if kind w \<noteq> pid then Inr ix1
             else
               (case header_pid w of
                  None \<Rightarrow> Inl Panic
                | Some p \<Rightarrow>
                    let ix2 = write_cur (\<lambda>iv. iv\<lparr>iv_end := off, iv_endTime := curTime\<rparr>) ix1;
                        idx = pidIndex p;
                        np = idx + 1;
                        bs = (if int (length (ix_blocks ix2)) < np
                              then ix_blocks ix2 @ replicate (nat (np - int (length (ix_blocks ix2)))) []
                              else ix_blocks ix2)
                    in if idx < 0 then Inl Panic
                       else
                         let b = bs ! nat idx @ [interval0];
                             ix3 = ix2\<lparr>ix_blocks := bs[nat idx := b], cur := Some (nat idx, length b - 1)\<rparr>;
                             ix4 = write_cur (\<lambda>iv. iv\<lparr>iv_start := off\<rparr>) ix3
                         in Inr (ix4\<lparr>wantTime := True\<rparr>))))"

text \<open>The inner loop, \<open>for j := 0; j < n; j += 8\<close>, over the bytes of one buffer.\<close>

function index_words :: "int \<Rightarrow> 8 word list \<Rightarrow> indexer \<Rightarrow> perror + indexer" where
  "index_words off buf ix =
     (if length buf < 8 then Inr ix
      else (case index_word off (le64 (take 8 buf)) ix of
              Inl err \<Rightarrow> Inl err
            | Inr ix' \<Rightarrow> index_words (off + 8) (drop 8 buf) ix'))"
  by pat_completeness auto
termination
  by (relation "measure (\<lambda>(off, buf, ix). length buf)") auto

declare index_words.simps [simp del]

text \<open>
  The outer loop: one \<open>ReadAt\<close> of a 32 KiB buffer per round. \<open>ReadAt\<close> returns the bytes
  that are there, and \<open>io.EOF\<close> when they do not fill the buffer. \<open>cursor\<close> starts at 0
  and only grows, so it is a natural number here.
\<close>

function index_chunks :: "8 word list \<Rightarrow> nat \<Rightarrow> indexer \<Rightarrow> perror + (indexer \<times> nat)" where
  "index_chunks rd cursor ix =
     (let buf = take 32768 (drop cursor rd); n = length buf in
      if n mod 8 \<noteq> 0 then Inl NotMultipleOf8
      else (case index_words (int cursor) buf ix of
              Inl err \<Rightarrow> Inl err
            | Inr ix' \<Rightarrow>
                if n < 32768 then Inr (ix', cursor + n)
                else index_chunks rd (cursor + n) ix'))"
  by pat_completeness auto
termination
  by (relation "measure (\<lambda>(rd, cursor, ix). length rd - cursor)") auto

declare index_chunks.simps [simp del]

definition NewTrace :: "8 word list \<Rightarrow> perror + Trace" where
  "NewTrace rd =
     (case index_chunks rd 0 indexer0 of
        Inl err \<Rightarrow> Inl err
      | Inr (ix, cursor) \<Rightarrow>
          let ix' = write_cur (\<lambda>iv. iv\<lparr>iv_end := int cursor\<rparr>) ix
          in Inr \<lparr>r = rd, blocks = ix_blocks ix', minTraceTime = ix_startTime ix',
                  startTime = ix_startTime ix', endTime = ix_endTime ix',
                  tr_minAddr = ix_minAddr ix', tr_maxAddr = ix_maxAddr ix'\<rparr>)"

definition Trace_Clone :: "Trace \<Rightarrow> Trace" where
  "Trace_Clone t = \<lparr>r = r t, blocks = blocks t, minTraceTime = minTraceTime t,
     startTime = startTime t, endTime = endTime t, tr_minAddr = 0, tr_maxAddr = 0\<rparr>"

definition TimeStart :: "Trace \<Rightarrow> 64 word" where
  "TimeStart t = startTime t - minTraceTime t"

definition TimeEnd :: "Trace \<Rightarrow> 64 word" where
  "TimeEnd t = endTime t - minTraceTime t"

text \<open>
  \<open>Slice\<close>. The inner loop appends the intervals that are kept, in order: a \<open>filter\<close>.
  In the early return \<open>t2.blocks\<close> holds \<open>len(t.blocks)\<close> empty lists.
\<close>

definition Slice :: "Trace \<Rightarrow> 64 word \<Rightarrow> 64 word \<Rightarrow> Trace" where
  "Slice t s e =
     (let start = minTraceTime t + s;
          end1 = minTraceTime t + e;
          t2 = \<lparr>r = r t, blocks = replicate (length (blocks t)) [], minTraceTime = minTraceTime t,
                 startTime = 0, endTime = 0, tr_minAddr = tr_minAddr t, tr_maxAddr = tr_maxAddr t\<rparr>;
          end2 = (if endTime t <s end1 then endTime t else end1);
          start2 = (if start <s startTime t then startTime t else start)
      in if end2 \<le>s start2 then t2\<lparr>startTime := minTraceTime t, endTime := minTraceTime t\<rparr>
         else t2\<lparr>startTime := start2, endTime := end2,
                 blocks := map (filter (\<lambda>iv. \<not> (iv_endTime iv <s start2 \<or> end2 <s iv_startTime iv)))
                             (blocks t)\<rparr>)"

text \<open>
  The slice bounds as the specification words them: \<open>[minTraceTime + s, minTraceTime + e]\<close>
  clamped to \<open>[startTime, endTime]\<close> (signed comparisons, wrapping addition).
\<close>

definition clampStart :: "Trace \<Rightarrow> 64 word \<Rightarrow> 64 word" where
  "clampStart t s = (if minTraceTime t + s <s startTime t then startTime t else minTraceTime t + s)"

definition clampEnd :: "Trace \<Rightarrow> 64 word \<Rightarrow> 64 word" where
  "clampEnd t e = (if endTime t <s minTraceTime t + e then endTime t else minTraceTime t + e)"

text \<open>
  The 64-bit word at a byte offset of the byte source, and the properties of the
  intervals that the indexer maintains (used to state and prove the interval invariant).
  An interval is open while \<open>cur\<close> points at it and closed afterwards.
\<close>

definition wordAt :: "8 word list \<Rightarrow> int \<Rightarrow> 64 word" where
  "wordAt rd off = le64 (take 8 (drop (nat off) rd))"

definition pidAt :: "8 word list \<Rightarrow> int \<Rightarrow> nat \<Rightarrow> bool" where
  "pidAt rd off i =
     (kind (wordAt rd off) = pid \<and> map_option pidIndex (header_pid (wordAt rd off)) = Some (int i))"

definition closedIv :: "8 word list \<Rightarrow> int \<Rightarrow> nat \<Rightarrow> interval \<Rightarrow> bool" where
  "closedIv rd hi i iv =
     (0 \<le> iv_start iv \<and> iv_start iv mod 8 = 0 \<and> iv_end iv mod 8 = 0 \<and>
      iv_start iv + 8 \<le> iv_end iv \<and> iv_end iv \<le> hi \<and> pidAt rd (iv_start iv) i \<and>
      (iv_start iv + 16 \<le> iv_end iv \<longrightarrow> kind (wordAt rd (iv_start iv + 8)) = sync))"

definition openIv :: "8 word list \<Rightarrow> int \<Rightarrow> bool \<Rightarrow> nat \<Rightarrow> interval \<Rightarrow> bool" where
  "openIv rd off wt i iv =
     (0 \<le> iv_start iv \<and> iv_start iv mod 8 = 0 \<and> pidAt rd (iv_start iv) i \<and>
      (if wt then iv_start iv + 8 = off
       else iv_start iv + 16 \<le> off \<and> kind (wordAt rd (iv_start iv + 8)) = sync))"

definition indexInv :: "8 word list \<Rightarrow> int \<Rightarrow> indexer \<Rightarrow> bool" where
  "indexInv rd off ix =
     (off mod 8 = 0 \<and> 0 \<le> off \<and>
      (wantTime ix \<longrightarrow> \<not> expectNpagesTrailer ix \<and> cur ix \<noteq> None) \<and>
      (\<forall>i k. cur ix = Some (i, k) \<longrightarrow> i < length (ix_blocks ix) \<and> k < length (ix_blocks ix ! i)) \<and>
      (\<forall>i k. i < length (ix_blocks ix) \<longrightarrow> k < length (ix_blocks ix ! i) \<longrightarrow>
         (if cur ix = Some (i, k) then openIv rd off (wantTime ix) i (ix_blocks ix ! i ! k)
          else closedIv rd off i (ix_blocks ix ! i ! k))))"

text \<open>
  A small trace: \<open>Pid(P = 0)\<close>, \<open>Sync\<close> (timestamp 12800), \<open>Alloc(base = 0x10000, 2 pages,
  delta 0)\<close>.
\<close>

definition trace_P0 :: "8 word list" where
  "trace_P0 = [4, 0, 0, 0, 0, 0, 0, 0,  0x20, 3, 0, 0, 0, 0, 0, 0,  0x11, 0, 1, 0, 0, 0, 0, 0]"

section \<open>Merge parser (internal/pagetrace/parser.go)\<close>

record event =
  eventHeader :: "64 word"
  npages :: "64 word"

definition event0 :: event where
  "event0 = \<lparr>eventHeader = 0, npages = 0\<rparr>"

record Parser =
  trace :: Trace
  clocks :: "64 word list"
  events :: "event list"

definition NewParser :: "Trace \<Rightarrow> Parser" where
  "NewParser t = \<lparr>trace = Trace_Clone t, clocks = [], events = []\<rparr>"

text \<open>
  \<open>read8\<close> reads and writes only \<open>p.trace.blocks[pidx]\<close> (and reads the byte source), and
  \<open>refreshEvent\<close> only that block list and \<open>p.clocks[pidx]\<close>. Their bodies are therefore
  functions of the byte source, the block list and the clock: \<open>read8_blocks\<close> and
  \<open>refresh_blocks\<close>. The results are Go's pairs \<open>(value, error)\<close>, with \<open>None\<close> for \<open>nil\<close>;
  a panic is the error \<open>Panic\<close>.
\<close>

definition read8_blocks :: "8 word list \<Rightarrow> interval list \<Rightarrow> (64 word \<times> perror option) \<times> interval list" where
  "read8_blocks rd bl =
     (case bl of
        [] \<Rightarrow> ((0, None), bl)
      | i # rest \<Rightarrow>
          (case ReadAt8 rd (iv_start i) of
             None \<Rightarrow> ((0, Some ReadFailed), bl)
           | Some u \<Rightarrow>
               let i' = i\<lparr>iv_start := iv_start i + 8\<rparr>
               in ((le64 u, None), if iv_start i' = iv_end i' then rest else i' # rest)))"

text \<open>What is left to read in a block list: the measure that makes \<open>refreshEvent\<close> end.\<close>

definition unread :: "8 word list \<Rightarrow> interval list \<Rightarrow> nat" where
  "unread rd bl = (\<Sum>iv\<leftarrow>bl. 1 + nat (int (length rd) - iv_start iv))"

text \<open>
  The loop of \<open>refreshEvent\<close>. \<open>clk\<close> is \<open>p.clocks[pidx]\<close>, or \<open>None\<close> when \<open>pidx\<close> is not an
  index of \<open>p.clocks\<close> (the assignment to it then panics).
\<close>

function refresh_blocks ::
  "8 word list \<Rightarrow> nat \<Rightarrow> interval list \<Rightarrow> 64 word option \<Rightarrow>
     (event \<times> perror option) \<times> interval list \<times> 64 word option" where
  "refresh_blocks rd pidx bl clk =
     (case read8_blocks rd bl of
        ((u, Some err), bl1) \<Rightarrow> ((event0, Some err), bl1, clk)
      | ((u, None), bl1) \<Rightarrow>
          if u = 0 then ((event0, None), bl1, clk)
          else if kind u = sync then
            (case (timestamp u, clk) of
               (Some t, Some c) \<Rightarrow> refresh_blocks rd pidx bl1 (Some t)
             | _ \<Rightarrow> ((\<lparr>eventHeader = u, npages = 0\<rparr>, Some Panic), bl1, clk))
          else if kind u = pid then
            (case header_pid u of
               None \<Rightarrow> ((\<lparr>eventHeader = u, npages = 0\<rparr>, Some Panic), bl1, clk)
             | Some p \<Rightarrow>
                 if pidIndex p \<noteq> int pidx
                 then ((\<lparr>eventHeader = u, npages = 0\<rparr>, Some WrongPid), bl1, clk)
                 else refresh_blocks rd pidx bl1 clk)
          else
            (case large u of
               None \<Rightarrow> ((\<lparr>eventHeader = u, npages = 0\<rparr>, Some Panic), bl1, clk)
             | Some True \<Rightarrow>
                 (case read8_blocks rd bl1 of
                    ((n, Some err), bl2) \<Rightarrow> ((\<lparr>eventHeader = u, npages = n\<rparr>, Some err), bl2, clk)
                  | ((n, None), bl2) \<Rightarrow> ((\<lparr>eventHeader = u, npages = n\<rparr>, None), bl2, clk))
             | Some False \<Rightarrow>
                 (case npagesSmall u of
                    None \<Rightarrow> ((\<lparr>eventHeader = u, npages = 0\<rparr>, Some Panic), bl1, clk)
                  | Some n \<Rightarrow> ((\<lparr>eventHeader = u, npages = n\<rparr>, None), bl1, clk))))"
  by pat_completeness auto
termination
  by (relation "measure (\<lambda>(rd, pidx, bl, clk). unread rd bl)")
    (auto simp: read8_blocks_def unread_def ReadAt8_def Let_def
       split: list.splits option.splits if_splits)

declare refresh_blocks.simps [simp del]

definition read8 :: "Parser \<Rightarrow> nat \<Rightarrow> (64 word \<times> perror option) \<times> Parser" where
  "read8 p pidx =
     (if pidx < length (blocks (trace p)) then
        (case read8_blocks (r (trace p)) (blocks (trace p) ! pidx) of
           (res, bl') \<Rightarrow> (res, p\<lparr>trace := (trace p)\<lparr>blocks := (blocks (trace p))[pidx := bl']\<rparr>\<rparr>))
      else ((0, Some Panic), p))"

definition refreshEvent :: "Parser \<Rightarrow> nat \<Rightarrow> (event \<times> perror option) \<times> Parser" where
  "refreshEvent p pidx =
     (if pidx < length (blocks (trace p)) then
        (case refresh_blocks (r (trace p)) pidx (blocks (trace p) ! pidx)
                (if pidx < length (clocks p) then Some (clocks p ! pidx) else None) of
           (res, bl', clk') \<Rightarrow>
             (res, p\<lparr>trace := (trace p)\<lparr>blocks := (blocks (trace p))[pidx := bl']\<rparr>,
                     clocks := (case clk' of None \<Rightarrow> clocks p | Some c \<Rightarrow> (clocks p)[pidx := c])\<rparr>))
      else ((event0, Some Panic), p))"

text \<open>\<open>makeEvent\<close> panics on a sync or pid header.\<close>

definition makeEvent :: "event \<Rightarrow> 32 word \<Rightarrow> 64 word \<Rightarrow> 64 word \<Rightarrow> Event option" where
  "makeEvent e pn ts startTs =
     (if kind (eventHeader e) = sync \<or> kind (eventHeader e) = pid then None
      else (case base (eventHeader e) of
              None \<Rightarrow> None
            | Some b \<Rightarrow>
                Some \<lparr>Kind = kindNoLarge (eventHeader e), P = pn,
                      Time = ts - startTs, Base = b,
                      Size = pageSize * npages e\<rparr>))"

definition MaxInt64 :: "64 word" where
  "MaxInt64 = 0x7FFFFFFFFFFFFFFF"

text \<open>
  The selection loop of \<open>Next\<close>, \<open>for i, e := range p.events\<close>, from index \<open>i\<close> on, with
  \<open>(minTimestamp, nextpidx, nexte)\<close> as accumulator. \<open>None\<close>: \<open>p.clocks[i]\<close> out of range, or
  \<open>timestampDelta\<close> on a sync or pid header.
\<close>

fun selectMin :: "64 word list \<Rightarrow> event list \<Rightarrow> nat \<Rightarrow> 64 word \<times> nat \<times> event \<Rightarrow>
    (64 word \<times> nat \<times> event) option" where
  "selectMin cl [] i acc = Some acc"
| "selectMin cl (e # es) i (minTimestamp, nextpidx, nexte) =
     (if eventHeader e = 0 then selectMin cl es (i + 1) (minTimestamp, nextpidx, nexte)
      else if i < length cl then
        (case timestampDelta (eventHeader e) of
           None \<Rightarrow> None
         | Some d \<Rightarrow>
             if cl ! i + d <s minTimestamp then selectMin cl es (i + 1) (cl ! i + d, i, e)
             else selectMin cl es (i + 1) (minTimestamp, nextpidx, nexte))
      else None)"

text \<open>
  The initialisation loop of \<open>Next\<close>: \<open>p.events[i], err = p.refreshEvent(i)\<close> for every
  index of \<open>p.trace.blocks\<close>.
\<close>

fun init_events :: "nat list \<Rightarrow> Parser \<Rightarrow> perror option \<times> Parser" where
  "init_events [] p = (None, p)"
| "init_events (i # is) p =
     (case refreshEvent p i of
        ((e, err), p1) \<Rightarrow>
          (case err of
             Some x \<Rightarrow> (Some x, p1\<lparr>events := (events p1)[i := e]\<rparr>)
           | None \<Rightarrow> init_events is (p1\<lparr>events := (events p1)[i := e]\<rparr>)))"

definition initialize :: "Parser \<Rightarrow> perror option \<times> Parser" where
  "initialize p =
     (if length (clocks p) = 0 then
        init_events [0..<length (blocks (trace p))]
          (p\<lparr>clocks := replicate (length (blocks (trace p))) 0,
             events := replicate (length (blocks (trace p))) event0\<rparr>)
      else (None, p))"

text \<open>
  One pass through the body of \<open>Next\<close>, from the label \<open>top\<close>: it either returns
  (\<open>Done\<close>, with the event or the error) or reaches \<open>goto top\<close> (\<open>Again\<close>).
\<close>

datatype pass = Done "(perror + Event) \<times> Parser" | Again Parser

definition Next_pass :: "Parser \<Rightarrow> pass" where
  "Next_pass p =
     (case initialize p of
        (Some err, p0) \<Rightarrow> Done (Inl err, p0)
      | (None, p0) \<Rightarrow>
          (case selectMin (clocks p0) (events p0) 0 (MaxInt64, 0, event0) of
             None \<Rightarrow> Done (Inl Panic, p0)
           | Some (minTimestamp, nextpidx, nexte) \<Rightarrow>
               if minTimestamp = MaxInt64 then Done (Inl EndOfStream, p0)
               else
                 (case makeEvent nexte (pidFromIndex (int nextpidx)) minTimestamp
                         (minTraceTime (trace p0)) of
                    None \<Rightarrow> Done (Inl Panic, p0)
                  | Some e \<Rightarrow>
                      if TimeEnd (trace p0) <s Time e then Done (Inl EndOfStream, p0)
                      else
                        (case refreshEvent p0 nextpidx of
                           ((ev, err), p1) \<Rightarrow>
                             let p2 = p1\<lparr>events := (events p1)[nextpidx := ev]\<rparr> in
                             (case err of
                                Some x \<Rightarrow> Done (Inl x, p2)
                              | None \<Rightarrow>
                                  if Time e <s TimeStart (trace p2) then Again p2
                                  else Done (Inr e, p2))))))"

text \<open>
  \<open>Next\<close>: passes are repeated while they end in \<open>goto top\<close>. The result is \<open>None\<close> if that
  never stops.
\<close>

partial_function (option) Next :: "Parser \<Rightarrow> ((perror + Event) \<times> Parser) option" where
  "Next p = (case Next_pass p of Done res \<Rightarrow> Some res | Again p' \<Rightarrow> Next p')"

text \<open>
  The stream of one processor is what repeated calls of \<open>refreshEvent\<close> for it deliver, each
  event with the timestamp that \<open>Next\<close> reconstructs for it: the processor's clock plus the
  event's \<open>timestampDelta\<close>. \<open>stream_sorted rd pidx bl clk t\<close>: from the block list \<open>bl\<close> and the
  clock \<open>clk\<close> on, these timestamps never decrease, and the first is at least \<open>t\<close>. The stream
  ends with the first null event or error.
\<close>

function stream_sorted ::
  "8 word list \<Rightarrow> nat \<Rightarrow> interval list \<Rightarrow> 64 word option \<Rightarrow> 64 word \<Rightarrow> bool" where
  "stream_sorted rd pidx bl clk t =
     (case refresh_blocks rd pidx bl clk of
        ((e, Some err), bl', clk') \<Rightarrow> True
      | ((e, None), bl', clk') \<Rightarrow>
          (if eventHeader e = 0 then True
           else (case (clk', timestampDelta (eventHeader e)) of
                   (Some c, Some d) \<Rightarrow> t \<le>s c + d \<and> stream_sorted rd pidx bl' clk' (c + d)
                 | _ \<Rightarrow> True)))"
  by pat_completeness auto
termination
proof -
  have rd8: "unread rd bl' \<le> unread rd bl \<and> (u \<noteq> 0 \<longrightarrow> unread rd bl' < unread rd bl)"
    if "read8_blocks rd bl = ((u, err), bl')" for rd bl u err bl'
    using that
    by (auto simp: read8_blocks_def unread_def ReadAt8_def Let_def
        split: list.splits option.splits if_splits)
  have dec: "refresh_blocks rd pidx bl clk = ((e, err), bl', clk') \<Longrightarrow>
      unread rd bl' \<le> unread rd bl \<and> (eventHeader e \<noteq> 0 \<longrightarrow> unread rd bl' < unread rd bl)"
    for rd pidx bl clk e err bl' clk'
  proof (induction rd pidx bl clk rule: refresh_blocks.induct)
    case (1 rd pidx bl clk)
    obtain u er bl1 where r1: "read8_blocks rd bl = ((u, er), bl1)"
      by (metis surj_pair)
    note d1 = rd8 [OF r1]
    obtain n er2 bl2 where r2: "read8_blocks rd bl1 = ((n, er2), bl2)"
      by (metis surj_pair)
    note d2 = rd8 [OF r2]
    show ?case
    proof (cases "er = None \<and> u \<noteq> 0 \<and> (kind u = sync \<or> kind u = pid)")
      case False
      with "1.prems" r1 r2 d1 d2 show ?thesis
        by (subst (asm) refresh_blocks.simps)
          (auto simp: event0_def split: option.splits if_splits bool.splits)
    next
      case True
      then have er: "er = None" and u: "u \<noteq> 0"
        by simp_all
      show ?thesis
      proof (cases "kind u = sync")
        case True
        show ?thesis
        proof (cases "timestamp u = None \<or> clk = None")
          case True
          with "1.prems" r1 er u \<open>kind u = sync\<close> d1 show ?thesis
            by (subst (asm) refresh_blocks.simps) (auto split: option.splits)
        next
          case False
          then obtain t c where t: "timestamp u = Some t" "clk = Some c"
            by auto
          with "1.prems" r1 er u \<open>kind u = sync\<close>
          have "refresh_blocks rd pidx bl1 (Some t) = ((e, err), bl', clk')"
            by (subst (asm) refresh_blocks.simps) simp
          from "1.IH"(1) [OF r1 [symmetric] refl _ u \<open>kind u = sync\<close> refl t(1) t(2) this] er d1 u
          show ?thesis
            by auto
        qed
      next
        case False
        with True have k: "kind u = pid"
          by simp
        show ?thesis
        proof (cases "\<exists>p. header_pid u = Some p \<and> pidIndex p = int pidx")
          case False
          with "1.prems" r1 er u k \<open>kind u \<noteq> sync\<close> d1 show ?thesis
            by (subst (asm) refresh_blocks.simps) (auto split: option.splits if_splits)
        next
          case True
          then obtain p where p: "header_pid u = Some p" "pidIndex p = int pidx"
            by auto
          with "1.prems" r1 er u k \<open>kind u \<noteq> sync\<close>
          have "refresh_blocks rd pidx bl1 clk = ((e, err), bl', clk')"
            by (subst (asm) refresh_blocks.simps) simp
          from "1.IH"(2) [OF r1 [symmetric] refl _ u \<open>kind u \<noteq> sync\<close> k p(1) _ this] er d1 u p(2)
          show ?thesis
            by auto
        qed
      qed
    qed
  qed
  show ?thesis
    by (relation "measure (\<lambda>(rd, pidx, bl, clk, t). unread rd bl)")
      (auto dest: dec dec [OF sym])
qed

declare stream_sorted.simps [simp del]

definition MinInt64 :: "64 word" where
  "MinInt64 = 0x8000000000000000"

text \<open>
  Every processor's stream, as \<open>Next\<close> reads it from a new parser (clocks at 0), has
  non-decreasing reconstructed timestamps.
\<close>

definition streams_sorted :: "Trace \<Rightarrow> bool" where
  "streams_sorted t =
     list_all (\<lambda>i. stream_sorted (r t) i (blocks t ! i) (Some 0) MinInt64) [0..<length (blocks t)]"

text \<open>
  \<open>Next_seq p es p'\<close>: successive calls of \<open>Next\<close> take the parser from \<open>p\<close> to \<open>p'\<close> and return
  the events \<open>es\<close>, in this order; calls that return an error (the end of the stream or
  another one) may lie between them. A panic ends the sequence.
\<close>

inductive Next_seq :: "Parser \<Rightarrow> Event list \<Rightarrow> Parser \<Rightarrow> bool" where
  Next_seq_Nil: "Next_seq p [] p"
| Next_seq_Event: "Next p = Some (Inr e, p1) \<Longrightarrow> Next_seq p1 es p2 \<Longrightarrow> Next_seq p (e # es) p2"
| Next_seq_Error: "Next p = Some (Inl err, p1) \<Longrightarrow> err \<noteq> Panic \<Longrightarrow> Next_seq p1 es p2 \<Longrightarrow>
    Next_seq p es p2"

text \<open>
  The trace that \<open>NewTrace\<close> builds from \<open>trace_P0\<close>, and the parser for it after the
  initialisation of \<open>Next\<close>: the Alloc event is pending for processor 0 (index 1).
\<close>

definition Trace_P0 :: Trace where
  "Trace_P0 = \<lparr>r = trace_P0,
     blocks = [[], [\<lparr>iv_start = 0, iv_end = 24, iv_startTime = 12800, iv_endTime = 0\<rparr>]],
     minTraceTime = 12800, startTime = 12800, endTime = 12800,
     tr_minAddr = 0x10000, tr_maxAddr = 0x14000\<rparr>"

definition Parser_P0 :: Parser where
  "Parser_P0 = \<lparr>trace = \<lparr>r = trace_P0,
       blocks = [[], []],
       minTraceTime = 12800, startTime = 12800, endTime = 12800, tr_minAddr = 0, tr_maxAddr = 0\<rparr>,
     clocks = [0, 12800],
     events = [event0, \<lparr>eventHeader = 0x10011, npages = 2\<rparr>]\<rparr>"


text \<open>
  The invariant of the parser between two calls of \<open>Next\<close>, for a trace \<open>t\<close> and a lower
  bound \<open>lb\<close> (the timestamp of the event returned last). \<open>failing\<close>: the next
  \<open>refreshEvent\<close> for the processor returns an error. \<open>slot_ok\<close>: the pending event of a
  processor is null, or has a header that \<open>timestampDelta\<close> rejects, or its read-ahead
  fails, or its timestamp is at least \<open>lb\<close> and the stream that follows it is sorted from
  that timestamp on. \<open>init_pre\<close> is the invariant of the initialisation loop before index
  \<open>k\<close>, and \<open>ready\<close> holds of a parser whose initialisation, if still to be done,
  establishes the invariant.
\<close>

definition failing :: "8 word list \<Rightarrow> nat \<Rightarrow> interval list \<Rightarrow> 64 word \<Rightarrow> bool" where
  "failing rd i bl c = (snd (fst (refresh_blocks rd i bl (Some c))) \<noteq> None)"

definition slot_ok ::
  "8 word list \<Rightarrow> 64 word \<Rightarrow> nat \<Rightarrow> event \<Rightarrow> 64 word \<Rightarrow> interval list \<Rightarrow> bool" where
  "slot_ok rd lb i e c bl =
     (eventHeader e = 0 \<or>
      (case timestampDelta (eventHeader e) of
         None \<Rightarrow> True
       | Some d \<Rightarrow> failing rd i bl c \<or> (lb \<le>s c + d \<and> stream_sorted rd i bl (Some c) (c + d))))"

definition parser_inv :: "Trace \<Rightarrow> 64 word \<Rightarrow> Parser \<Rightarrow> bool" where
  "parser_inv t lb p =
     (length (clocks p) = length (blocks t) \<and> length (events p) = length (blocks t) \<and>
      length (blocks (trace p)) = length (blocks t) \<and> r (trace p) = r t \<and>
      minTraceTime (trace p) = minTraceTime t \<and> startTime (trace p) = startTime t \<and>
      endTime (trace p) = endTime t \<and>
      (\<forall>i<length (blocks t).
         slot_ok (r t) lb i (events p ! i) (clocks p ! i) (blocks (trace p) ! i)))"

definition init_pre :: "Trace \<Rightarrow> nat \<Rightarrow> Parser \<Rightarrow> bool" where
  "init_pre t k p =
     (length (clocks p) = length (blocks t) \<and> length (events p) = length (blocks t) \<and>
      length (blocks (trace p)) = length (blocks t) \<and> r (trace p) = r t \<and>
      minTraceTime (trace p) = minTraceTime t \<and> startTime (trace p) = startTime t \<and>
      endTime (trace p) = endTime t \<and>
      (\<forall>i<k. slot_ok (r t) MinInt64 i (events p ! i) (clocks p ! i) (blocks (trace p) ! i)) \<and>
      (\<forall>i. k \<le> i \<and> i < length (blocks t) \<longrightarrow>
         events p ! i = event0 \<and> clocks p ! i = 0 \<and> blocks (trace p) ! i = blocks t ! i))"

definition ready :: "Trace \<Rightarrow> 64 word \<Rightarrow> Parser \<Rightarrow> bool" where
  "ready t lb p = (\<exists>ierr p0. initialize p = (ierr, p0) \<and> parser_inv t lb p0)"

text \<open>
  A trace of two processors: for processor 0, \<open>Alloc(0x10000, 2 pages)\<close> at timestamp 12800
  and \<open>Free(0x10000, 2 pages)\<close> at 13056; for processor 1, \<open>Alloc(0x20000, 1 page)\<close> at
  12928. \<open>Trace_P01\<close> is what \<open>NewTrace\<close> builds from it, and \<open>Parser_P01 bs es\<close> the parser
  for it with block lists \<open>bs\<close> and pending events \<open>es\<close>.
\<close>

definition trace_P01 :: "8 word list" where
  "trace_P01 = [4, 0, 0, 0, 0, 0, 0, 0,  0x20, 3, 0, 0, 0, 0, 0, 0,  0x11, 0, 1, 0, 0, 0, 0, 0,
                0x12, 0, 1, 0, 0, 0, 2, 0,  0x0C, 0, 0, 0, 0, 0, 0, 0,  0x20, 3, 0, 0, 0, 0, 0, 0,
                0x09, 0, 2, 0, 0, 0, 1, 0]"

definition Trace_P01 :: Trace where
  "Trace_P01 = \<lparr>r = trace_P01,
     blocks = [[], [\<lparr>iv_start = 0, iv_end = 32, iv_startTime = 12800, iv_endTime = 0\<rparr>],
               [\<lparr>iv_start = 32, iv_end = 56, iv_startTime = 12800, iv_endTime = 0\<rparr>]],
     minTraceTime = 12800, startTime = 12800, endTime = 13056,
     tr_minAddr = 0x10000, tr_maxAddr = 0x22000\<rparr>"

definition Parser_P01 :: "interval list list \<Rightarrow> event list \<Rightarrow> Parser" where
  "Parser_P01 bs es = \<lparr>trace = \<lparr>r = trace_P01, blocks = bs,
       minTraceTime = 12800, startTime = 12800, endTime = 13056, tr_minAddr = 0, tr_maxAddr = 0\<rparr>,
     clocks = [0, 12800, 12800], events = es\<rparr>"

text \<open>
  What a parser still holds: the unread part of its block lists plus the number of its
  pending events. Every pass of \<open>Next\<close> that ends in \<open>goto top\<close> makes it smaller.
\<close>

definition pending :: "Parser \<Rightarrow> nat" where
  "pending p =
     (\<Sum>bl\<leftarrow>blocks (trace p). unread (r (trace p)) bl) +
     (\<Sum>e\<leftarrow>events p. if eventHeader e = 0 then 0 else 1)"

section \<open>The event codec: timestamp deltas\<close>

lemma shift_41_split:
  fixes w :: "64 word"
  assumes "w AND 0xFE0000000000 = 0"
  shows "drop_bit 41 w = push_bit 7 (drop_bit 48 w)"
proof (rule bit_word_eqI)
  fix n
  assume n: "n < LENGTH(64)"
  have m: "(0xFE0000000000 :: 64 word) = push_bit 41 (mask 7)"
    by (simp add: mask_eq_exp_minus_1)
  have z: "\<not> bit w (41 + k)" if "k < 7" for k
  proof
    assume "bit w (41 + k)"
    then have "bit (w AND push_bit 41 (mask 7)) (41 + k)"
      using that by (simp add: bit_and_iff bit_push_bit_iff bit_mask_iff)
    then show False
      using assms m by simp
  qed
  show "bit (drop_bit 41 w) n = bit (push_bit 7 (drop_bit 48 w)) n"
  proof (cases "n < 7")
    case True
    then show ?thesis
      using z [of n] by (simp add: bit_drop_bit_eq bit_push_bit_iff add.commute)
  next
    case False
    then have "48 + (n - 7) = n + 41"
      by simp
    then show ?thesis
      using False n
      by (auto simp add: bit_drop_bit_eq bit_push_bit_iff add.commute dest: bit_imp_le_length)
  qed
qed

lemma deltaField_less: "unat (deltaField w) < 2 ^ 16"
proof -
  have "unat (drop_bit 48 w) = unat w div 2 ^ 48"
    by (simp add: drop_bit_eq_div unat_div)
  moreover have "unat w < 2 ^ 64"
    using unsigned_less [of w] by simp
  ultimately show ?thesis
    by (simp add: deltaField_def timeDeltaBits_def less_mult_imp_div_less)
qed

lemma unat_push_7_deltaField: "unat (push_bit 7 (deltaField w)) = 2 ^ 7 * unat (deltaField w)"
  using deltaField_less [of w] by (simp add: push_bit_eq_mult unat_word_ariths)

text \<open>
  C2, as stated, fails: \<open>timestampDelta\<close> shifts right by \<open>(64 - 16) - 7 = 41\<close>, not by
  48, so it does not return the 16-bit field of bits 48..63 but that field times \<open>2^7\<close>
  (nanoseconds). The header \<open>0x1000000000001\<close> is an alloc event whose field is 1 and
  whose delta is 128.
\<close>

theorem C2_counterexample:
  "kind 0x1000000000001 \<noteq> sync \<and> kind 0x1000000000001 \<noteq> pid \<and>
   deltaField 0x1000000000001 = 1 \<and>
   timestampDelta 0x1000000000001 = Some 128 \<and>
   timestampDelta 0x1000000000001 \<noteq> Some (deltaField 0x1000000000001)"
  by (simp add: timestampDelta_def deltaField_def kind_def kindMask_def kindBits_def
      sync_def pid_def timeDeltaBits_def timeLostBits_def)

text \<open>
  C2, amended: for every memory-event header \<open>w\<close> (kind neither sync nor pid) whose bits
  41..47 are clear, \<open>timestampDelta w\<close> is the 16-bit field of bits 48..63 shifted left by
  the seven lost bits, that is \<open>2^7\<close> times the field; the field is below \<open>2^16\<close>, so the
  delta is below \<open>2^23\<close>.
\<close>

theorem C2_timestampDelta_scaled_field:
  assumes "kind w \<noteq> sync" and "kind w \<noteq> pid" and "w AND 0xFE0000000000 = 0"
  shows "timestampDelta w = Some (push_bit timeLostBits (deltaField w)) \<and>
         unat (push_bit timeLostBits (deltaField w)) = 2 ^ 7 * unat (deltaField w) \<and>
         unat (deltaField w) < 2 ^ 16 \<and>
         unat (push_bit timeLostBits (deltaField w)) < 2 ^ 23"
proof -
  have "timestampDelta w = Some (drop_bit 41 w)"
    using assms(1,2) by (simp add: timestampDelta_def timeDeltaBits_def timeLostBits_def)
  moreover have "drop_bit 41 w = push_bit 7 (drop_bit 48 w)"
    using assms(3) by (rule shift_41_split)
  ultimately have "timestampDelta w = Some (push_bit timeLostBits (deltaField w))"
    by (simp add: deltaField_def timeDeltaBits_def timeLostBits_def)
  moreover have "unat (push_bit timeLostBits (deltaField w)) = 2 ^ 7 * unat (deltaField w)"
    using unat_push_7_deltaField [of w] by (simp add: timeLostBits_def)
  moreover have "unat (deltaField w) < 2 ^ 16"
    by (rule deltaField_less)
  ultimately show ?thesis
    by simp
qed

theorem C2_timestampDelta_scaled_field_witness:
  "kind 0x5000000012009 \<noteq> sync \<and> kind 0x5000000012009 \<noteq> pid \<and>
   (0x5000000012009 :: 64 word) AND 0xFE0000000000 = 0 \<and>
   deltaField 0x5000000012009 = 5 \<and>
   timestampDelta 0x5000000012009 = Some 640"
proof -
  have k: "kind 0x5000000012009 \<noteq> sync" "kind 0x5000000012009 \<noteq> pid"
    by (simp_all add: kind_def kindMask_def kindBits_def sync_def pid_def)
  have b: "(0x5000000012009 :: 64 word) AND 0xFE0000000000 = 0"
    by simp
  have f: "deltaField 0x5000000012009 = 5"
    by (simp add: deltaField_def timeDeltaBits_def)
  show ?thesis
    using C2_timestampDelta_scaled_field [OF k b] k b f by (simp add: timeLostBits_def)
qed

section \<open>The simulator: bitmaps and \<open>update\<close>\<close>

lemma and_push_bit_1_neq_0: "(x AND push_bit n 1 \<noteq> 0) = bit x n" for x :: "8 word"
  by (simp only: bit_iff_and_push_bit_not_eq_0)

lemma len_Some [simp]: "len (Some bs) = length bs" by (simp add: len_def)
lemma elems_Some [simp]: "elems (Some bs) = bs" by (simp add: elems_def)
lemma len_elems: "length (elems s) = len s" by (simp add: len_def elems_def split: option.splits)

lemma unat_mod_8_less: "unat ((i::64 word) mod 8) < 8"
  by (simp add: unat_mod)

lemma page_index_eq:
  fixes i j :: "64 word"
  assumes "unat (j div 8) = unat (i div 8)" and "unat (j mod 8) = unat (i mod 8)"
  shows "j = i"
proof -
  have "j div 8 = i div 8" "j mod 8 = i mod 8"
    using assms by (simp_all add: word_unat_eq_iff)
  then have "j div 8 * 8 + j mod 8 = i div 8 * 8 + i mod 8" by simp
  then show ?thesis by (simp only: div_mult_mod_eq)
qed

lemma bitAt_bit: "bitAt bits j =
   (if unat (j div 8) < len bits then Some (bit (elems bits ! unat (j div 8)) (unat (j mod 8))) else None)"
  unfolding bitAt_def and_push_bit_1_neq_0 by simp

lemma setBit_len: "setBit bits i = Some b \<Longrightarrow> length b = len bits"
  by (auto simp: setBit_def len_elems split: if_splits)

lemma clearBit_len: "clearBit bits i = Some b \<Longrightarrow> length b = len bits"
  by (auto simp: clearBit_def len_elems split: if_splits)

lemma bitAt_setBit:
  assumes "setBit bits i = Some b"
  shows "bitAt (Some b) j = (if j = i then Some True else bitAt bits j)"
proof -
  from assms have in_range: "unat (i div 8) < len bits"
    and b: "b = (elems bits)[unat (i div 8) := (elems bits ! unat (i div 8)) OR push_bit (unat (i mod 8)) 1]"
    by (auto simp: setBit_def split: if_splits)
  have lb: "length b = len bits" using assms by (rule setBit_len)
  show ?thesis
  proof (cases "unat (j div 8) = unat (i div 8)")
    case True
    then show ?thesis
      using in_range lb page_index_eq [of j i] unat_mod_8_less [of j] unat_mod_8_less [of i]
      by (auto simp: bitAt_bit b len_elems bit_or_iff bit_exp_iff)
  next
    case False
    then show ?thesis
      using lb by (auto simp: bitAt_bit b len_elems)
  qed
qed

lemma bitAt_clearBit:
  assumes "clearBit bits i = Some b"
  shows "bitAt (Some b) j = (if j = i then Some False else bitAt bits j)"
proof -
  from assms have in_range: "unat (i div 8) < len bits"
    and b: "b = (elems bits)[unat (i div 8) := (elems bits ! unat (i div 8)) AND NOT (push_bit (unat (i mod 8)) 1)]"
    by (auto simp: clearBit_def split: if_splits)
  have lb: "length b = len bits" using assms by (rule clearBit_len)
  show ?thesis
  proof (cases "unat (j div 8) = unat (i div 8)")
    case True
    then show ?thesis
      using in_range lb page_index_eq [of j i] unat_mod_8_less [of j] unat_mod_8_less [of i]
      by (auto simp: bitAt_bit b len_elems bit_and_iff bit_not_iff bit_exp_iff)
  next
    case False
    then show ?thesis
      using lb by (auto simp: bitAt_bit b len_elems)
  qed
qed

lemma range_step:
  fixes i j lim :: "64 word"
  assumes "i < lim"
  shows "(i \<le> j \<and> j < lim) = (j = i \<or> (i + 1 \<le> j \<and> j < lim))"
  using assms by unat_arith

lemma update_loop_other:
  "k \<noteq> EventAllocate \<Longrightarrow> k \<noteq> EventFree \<Longrightarrow> k \<noteq> EventScavenge \<Longrightarrow> update_loop k lim i s = Some s"
  by (subst update_loop.simps) simp

lemma update_loop_Allocate:
  "update_loop k lim i s = Some s' \<Longrightarrow> k = EventAllocate \<Longrightarrow>
     bitAt (allocBits s') j = (if i \<le> j \<and> j < lim then Some True else bitAt (allocBits s) j) \<and>
     bitAt (scavBits s') j = (if i \<le> j \<and> j < lim then Some False else bitAt (scavBits s) j)"
proof (induction k lim i s rule: update_loop.induct)
  case (1 k lim i s)
  show ?case
  proof (cases "i < lim")
    case False
    with "1.prems" have "s' = s"
      by (subst (asm) update_loop.simps) simp
    with False show ?thesis
      by auto
  next
    case True
    from "1.prems" True obtain a c where a: "setBit (allocBits s) i = Some a"
      and c: "clearBit (scavBits s) i = Some c"
      and rest: "update_loop k lim (i + 1) (s\<lparr>allocBits := Some a, scavBits := Some c\<rparr>) = Some s'"
      by (subst (asm) update_loop.simps) (auto split: option.splits)
    have IH: "bitAt (allocBits s') j = (if i + 1 \<le> j \<and> j < lim then Some True else bitAt (Some a) j) \<and>
      bitAt (scavBits s') j = (if i + 1 \<le> j \<and> j < lim then Some False else bitAt (Some c) j)"
      using "1.IH"(1) [OF True "1.prems"(2) a c rest "1.prems"(2)] by simp
    show ?thesis
      using IH bitAt_setBit [OF a, of j] bitAt_clearBit [OF c, of j] range_step [OF True, of j]
      by auto
  qed
qed

lemma and_or_and_not:
  fixes x y m :: "8 word"
  assumes "x AND y = 0"
  shows "(x OR m) AND (y AND NOT m) = 0" and "(x AND NOT m) AND y = 0"
proof -
  have "(x OR m) AND (y AND NOT m) = (x AND y) AND NOT m"
    by (rule bit_word_eqI) (auto simp: bit_and_iff bit_or_iff bit_not_iff)
  with assms show "(x OR m) AND (y AND NOT m) = 0"
    by simp
  have "(x AND NOT m) AND y = (x AND y) AND NOT m"
    by (rule bit_word_eqI) (auto simp: bit_and_iff bit_or_iff bit_not_iff)
  with assms show "(x AND NOT m) AND y = 0"
    by simp
qed

lemma noBothSet_set_clear:
  assumes inv: "noBothSet s" and a: "setBit (allocBits s) i = Some a"
    and c: "clearBit (scavBits s) i = Some c"
  shows "noBothSet (s\<lparr>allocBits := Some a, scavBits := Some c\<rparr>)"
proof -
  let ?A = "elems (allocBits s)" and ?C = "elems (scavBits s)"
  let ?n = "unat (i div 8)" and ?m = "push_bit (unat (i mod 8)) 1 :: 8 word"
  have n: "?n < length ?A" and a': "a = ?A[?n := (?A ! ?n) OR ?m]"
    using a by (auto simp: setBit_def len_elems split: if_splits)
  have c': "c = ?C[?n := (?C ! ?n) AND NOT ?m]"
    using c by (auto simp: clearBit_def split: if_splits)
  have all: "list_all2 (\<lambda>a c. a AND c = 0) ?A ?C"
    using inv by (simp add: noBothSet_def)
  have "(?A ! ?n) AND (?C ! ?n) = 0"
    using list_all2_nthD [OF all n] .
  then have "((?A ! ?n) OR ?m) AND ((?C ! ?n) AND NOT ?m) = 0"
    by (rule and_or_and_not)
  with all have "list_all2 (\<lambda>a c. a AND c = 0) (?A[?n := (?A ! ?n) OR ?m]) (?C[?n := (?C ! ?n) AND NOT ?m])"
    by (rule list_all2_update_cong)
  then show ?thesis
    by (simp add: noBothSet_def a' c')
qed

lemma noBothSet_clear_alloc:
  assumes inv: "noBothSet s" and a: "clearBit (allocBits s) i = Some a"
  shows "noBothSet (s\<lparr>allocBits := Some a\<rparr>)"
proof -
  let ?A = "elems (allocBits s)" and ?C = "elems (scavBits s)"
  let ?n = "unat (i div 8)" and ?m = "push_bit (unat (i mod 8)) 1 :: 8 word"
  have n: "?n < length ?A" and a': "a = ?A[?n := (?A ! ?n) AND NOT ?m]"
    using a by (auto simp: clearBit_def len_elems split: if_splits)
  have all: "list_all2 (\<lambda>a c. a AND c = 0) ?A ?C"
    using inv by (simp add: noBothSet_def)
  have "(?A ! ?n) AND (?C ! ?n) = 0"
    using list_all2_nthD [OF all n] .
  then have "((?A ! ?n) AND NOT ?m) AND (?C ! ?n) = 0"
    by (rule and_or_and_not)
  with all have "list_all2 (\<lambda>a c. a AND c = 0) (?A[?n := (?A ! ?n) AND NOT ?m]) (?C[?n := ?C ! ?n])"
    by (rule list_all2_update_cong)
  then show ?thesis
    by (simp add: noBothSet_def a')
qed

lemma update_loop_noBothSet:
  "update_loop k lim i s = Some s' \<Longrightarrow> k = EventAllocate \<or> k = EventFree \<Longrightarrow> noBothSet s \<Longrightarrow> noBothSet s'"
proof (induction k lim i s rule: update_loop.induct)
  case (1 k lim i s)
  show ?case
  proof (cases "i < lim")
    case False
    with "1.prems" show ?thesis
      by (subst (asm) update_loop.simps) simp
  next
    case True
    note lt = True
    show ?thesis
    proof (cases "k = EventAllocate")
      case True
      from "1.prems" lt True obtain a c where a: "setBit (allocBits s) i = Some a"
        and c: "clearBit (scavBits s) i = Some c"
        and rest: "update_loop k lim (i + 1) (s\<lparr>allocBits := Some a, scavBits := Some c\<rparr>) = Some s'"
        by (subst (asm) update_loop.simps) (auto split: option.splits)
      show ?thesis
        using "1.IH"(1) [OF lt True a c rest "1.prems"(2) noBothSet_set_clear [OF "1.prems"(3) a c]] .
    next
      case False
      with "1.prems" have fr: "k = EventFree" by simp
      then have ne: "k \<noteq> EventAllocate" by (simp add: EventFree_def EventAllocate_def)
      from "1.prems" lt fr ne obtain a where a: "clearBit (allocBits s) i = Some a"
        and rest: "update_loop k lim (i + 1) (s\<lparr>allocBits := Some a\<rparr>) = Some s'"
        by (subst (asm) update_loop.simps) (auto split: option.splits)
      show ?thesis
        using "1.IH"(2) [OF lt ne fr a rest "1.prems"(2) noBothSet_clear_alloc [OF "1.prems"(3) a]] .
    qed
  qed
qed

lemma elems_extendBack: "elems (extendBack bits n) = elems bits @ replicate (n - len bits) 0"
  by (simp add: extendBack_def)

lemma elems_extendFront: "elems (extendFront bits n) = replicate (n - len bits) 0 @ elems bits"
  by (simp add: extendFront_def)

lemma extendBack_None: "bits \<noteq> None \<Longrightarrow> extendBack bits n \<noteq> None"
  by (simp add: extendBack_def)

lemma extendFront_None: "bits \<noteq> None \<Longrightarrow> extendFront bits n \<noteq> None"
  by (simp add: extendFront_def)

lemma zeros_all2: "list_all2 (\<lambda>a c. a AND c = 0) (replicate n (0::8 word)) (replicate n 0)"
  by (simp add: list_all2_conv_all_nth)

lemma noBothSet_len: "noBothSet s \<Longrightarrow> len (allocBits s) = len (scavBits s)"
  unfolding noBothSet_def using list_all2_lengthD len_elems by metis

lemma grow_noBothSet:
  assumes "noBothSet s"
  shows "noBothSet (grow s e)"
proof -
  have l: "len (allocBits s) = len (scavBits s)"
    using assms by (rule noBothSet_len)
  have all: "list_all2 (\<lambda>a c. a AND c = 0) (elems (allocBits s)) (elems (scavBits s))"
    using assms by (simp add: noBothSet_def)
  have bk: "list_all2 (\<lambda>a c. a AND c = 0) (elems (extendBack (allocBits s) n)) (elems (extendBack (scavBits s) n))" for n
    unfolding elems_extendBack l using all zeros_all2 by (rule list_all2_appendI)
  have fr: "list_all2 (\<lambda>a c. a AND c = 0) (elems (extendFront a n)) (elems (extendFront c n))"
    if "list_all2 (\<lambda>a c. a AND c = 0) (elems a) (elems c)" for a c n
  proof -
    have "len a = len c" using that list_all2_lengthD len_elems by metis
    then show ?thesis
      unfolding elems_extendFront using zeros_all2 that by (auto intro: list_all2_appendI)
  qed
  show ?thesis
    unfolding grow_def Let_def noBothSet_def
    using all bk fr zeros_all2 by (auto simp: MinAddr_def)
qed

lemma update_loop_invariant:
  assumes "update_loop k lim i s = Some s'" and "Q s"
    and A: "\<And>s a c j. Q s \<Longrightarrow> k = EventAllocate \<Longrightarrow> setBit (allocBits s) j = Some a \<Longrightarrow>
           clearBit (scavBits s) j = Some c \<Longrightarrow> Q (s\<lparr>allocBits := Some a, scavBits := Some c\<rparr>)"
    and F: "\<And>s a j. Q s \<Longrightarrow> k = EventFree \<Longrightarrow> clearBit (allocBits s) j = Some a \<Longrightarrow>
           Q (s\<lparr>allocBits := Some a\<rparr>)"
    and S: "\<And>s c j. Q s \<Longrightarrow> k = EventScavenge \<Longrightarrow> setBit (scavBits s) j = Some c \<Longrightarrow>
           Q (s\<lparr>scavBits := Some c\<rparr>)"
  shows "Q s'"
  using assms
proof (induction k lim i s rule: update_loop.induct)
  case (1 k lim i s)
  note run = "1.prems"(1) and Qs = "1.prems"(2)
  show ?case
  proof (cases "i < lim")
    case False
    with run have "s' = s"
      by (subst (asm) update_loop.simps) simp
    with Qs show ?thesis
      by simp
  next
    case lt: True
    consider (al) "k = EventAllocate"
      | (fr) "k \<noteq> EventAllocate" "k = EventFree"
      | (sc) "k \<noteq> EventAllocate" "k \<noteq> EventFree" "k = EventScavenge"
      | (other) "k \<noteq> EventAllocate" "k \<noteq> EventFree" "k \<noteq> EventScavenge"
      by blast
    then show ?thesis
    proof cases
      case al
      from run lt al obtain a c where a: "setBit (allocBits s) i = Some a"
        and c: "clearBit (scavBits s) i = Some c"
        and rest: "update_loop k lim (i + 1) (s\<lparr>allocBits := Some a, scavBits := Some c\<rparr>) = Some s'"
        by (subst (asm) update_loop.simps) (auto split: option.splits)
      show ?thesis
        using "1.IH"(1) [OF lt al a c rest] "1.prems"(3) [OF Qs al a c] "1.prems"(3,4,5) by blast
    next
      case fr
      from run lt fr obtain a where a: "clearBit (allocBits s) i = Some a"
        and rest: "update_loop k lim (i + 1) (s\<lparr>allocBits := Some a\<rparr>) = Some s'"
        by (subst (asm) update_loop.simps) (auto split: option.splits)
      show ?thesis
        using "1.IH"(2) [OF lt fr a rest] "1.prems"(4) [OF Qs fr(2) a] "1.prems"(3,4,5) by blast
    next
      case sc
      from run lt sc obtain c where c: "setBit (scavBits s) i = Some c"
        and rest: "update_loop k lim (i + 1) (s\<lparr>scavBits := Some c\<rparr>) = Some s'"
        by (subst (asm) update_loop.simps) (auto split: option.splits)
      show ?thesis
        using "1.IH"(3) [OF lt sc c rest] "1.prems"(5) [OF Qs sc(3) c] "1.prems"(3,4,5) by blast
    next
      case other
      with run lt have "s' = s"
        by (subst (asm) update_loop.simps) simp
      with Qs show ?thesis
        by simp
    qed
  qed
qed

lemma update_loop_minAddr:
  assumes "update_loop k lim i s = Some s'"
  shows "minAddr s' = minAddr s"
  using assms by (rule update_loop_invariant [where Q = "\<lambda>t. minAddr t = minAddr s"]) simp_all

lemma grow_id:
  assumes "allocBits s \<noteq> None" and "MinAddr s \<le> Base e" and "Base e + Size e \<le> MaxAddr s"
  shows "grow s e = s"
  using assms by (auto simp: grow_def Let_def)

text \<open>
  C3, amended: whenever \<open>update\<close> returns for an Allocate event, every page index of the
  event's range (the indices the loop of \<open>update\<close> runs over) has its scav bit 0 and
  its alloc bit 1 afterwards; and \<open>update\<close> with an Allocate or a Free event keeps the
  property that no page has both bits set. A Scavenge event sets the scav bits without
  looking at the alloc bits, so the property is not an invariant of every event sequence
  (see \<open>C3_counterexample\<close>).
\<close>

theorem C3_update:
  assumes "update s e = Some s'"
  shows "(Kind e = EventAllocate \<longrightarrow>
           (\<forall>i. (Base e - minAddr s') div pageSize \<le> i \<and> i < (Base e + Size e - minAddr s') div pageSize
              \<longrightarrow> bitAt (scavBits s') i = Some False \<and> bitAt (allocBits s') i = Some True)) \<and>
         ((Kind e = EventAllocate \<or> Kind e = EventFree) \<and> noBothSet s \<longrightarrow> noBothSet s')"
proof -
  let ?g = "grow s e"
  from assms have loop: "update_loop (Kind e) ((Base e + Size e - minAddr ?g) div pageSize)
      ((Base e - minAddr ?g) div pageSize) ?g = Some s'"
    by (simp add: update_def Let_def)
  have m: "minAddr s' = minAddr ?g"
    using loop by (rule update_loop_minAddr)
  have "bitAt (scavBits s') i = Some False \<and> bitAt (allocBits s') i = Some True"
    if "Kind e = EventAllocate" and "(Base e - minAddr s') div pageSize \<le> i"
      and "i < (Base e + Size e - minAddr s') div pageSize" for i
    using update_loop_Allocate [OF loop that(1), of i] that(2,3) by (simp add: m)
  moreover have "noBothSet s'" if "Kind e = EventAllocate \<or> Kind e = EventFree" and "noBothSet s"
    using update_loop_noBothSet [OF loop that(1) grow_noBothSet [OF that(2)]] .
  ultimately show ?thesis
    by blast
qed

lemmas sim_eval = update_def grow_def Let_def bitmapSize_def alignUp_def alignDown_def pageSize_def
  pageShift_def extendBack_def extendFront_def MaxAddr_def MinAddr_def State_Size_def len_def
  elems_def setBit_def clearBit_def bitAt_def update_loop.simps EventBad_def EventAllocate_def
  EventFree_def EventScavenge_def Feed_def State0_def Simulator0_def IsAllocated_def IsScavenged_def

lemma grow_elems:
  "\<exists>n1 n2 m1 m2. elems (allocBits (grow s e)) = replicate n1 0 @ elems (allocBits s) @ replicate n2 0 \<and>
     elems (scavBits (grow s e)) =
       replicate m1 0 @ (if allocBits s = None then [] else elems (scavBits s)) @ replicate m2 0"
proof -
  have pad: "\<exists>n1 n2. ys = replicate n1 (0::8 word) @ xs @ replicate n2 0"
    if "ys = replicate a 0 @ (xs @ replicate b 0)" for xs ys a b
    using that by blast
  have nil: "\<exists>n1 n2. replicate n (0::8 word) = replicate n1 0 @ [] @ replicate n2 0" for n
    by (rule exI [of _ 0], rule exI [of _ n]) simp
  have al: "\<exists>n1 n2. elems (allocBits (grow s e)) = replicate n1 0 @ elems (allocBits s) @ replicate n2 0"
  proof (cases "allocBits s = None")
    case True
    then show ?thesis
      using nil by (simp add: grow_def Let_def elems_def)
  next
    case False
    then show ?thesis
      unfolding grow_def Let_def
      by (auto simp: elems_extendFront elems_extendBack MinAddr_def
          intro: pad pad [where a = 0, simplified] pad [where b = 0, simplified]
            pad [where a = 0 and b = 0, simplified])
  qed
  have sc: "\<exists>m1 m2. elems (scavBits (grow s e)) =
      replicate m1 0 @ (if allocBits s = None then [] else elems (scavBits s)) @ replicate m2 0"
  proof (cases "allocBits s = None")
    case True
    then show ?thesis
      using nil by (simp add: grow_def Let_def)
  next
    case False
    then show ?thesis
      unfolding grow_def Let_def
      by (auto simp: elems_extendFront elems_extendBack MinAddr_def
          intro: pad pad [where a = 0, simplified] pad [where b = 0, simplified]
            pad [where a = 0 and b = 0, simplified])
  qed
  from al sc show ?thesis
    by blast
qed

text \<open>
  C4, amended: for an event whose kind is not Allocate, Free or Scavenge, \<open>Feed\<close> returns
  (no index is out of range; the allocation of memory is taken to succeed), sets the clock
  to the event's time, and sets or clears no bit: each bitmap keeps its bytes, in order,
  and gains only zero bytes (in a nil state both bitmaps are made anew, all zero). When the
  state is not nil and the event's range lies inside the tracked range, \<open>MinAddr \<le> Base\<close>
  and \<open>Base + Size \<le> MaxAddr\<close>, the state is left as it was, so every query returns what
  it returned before. Nothing is said of the queries when the event's range reaches outside
  the tracked range.
\<close>

theorem C4_Feed_other_kind:
  assumes "Kind e \<noteq> EventAllocate" and "Kind e \<noteq> EventFree" and "Kind e \<noteq> EventScavenge"
  shows "\<exists>st n1 n2 m1 m2.
           Feed sim e = Some (sim\<lparr>clock := Time e, state := st\<rparr>) \<and>
           elems (allocBits st) = replicate n1 0 @ elems (allocBits (state sim)) @ replicate n2 0 \<and>
           elems (scavBits st) =
             replicate m1 0 @ (if allocBits (state sim) = None then [] else elems (scavBits (state sim)))
               @ replicate m2 0 \<and>
           (allocBits (state sim) \<noteq> None \<and> MinAddr (state sim) \<le> Base e \<and>
              Base e + Size e \<le> MaxAddr (state sim) \<longrightarrow> st = state sim)"
proof -
  have u: "update (state sim) e = Some (grow (state sim) e)"
    using assms by (simp add: update_def Let_def update_loop_other)
  then have "Feed sim e = Some (sim\<lparr>clock := Time e, state := grow (state sim) e\<rparr>)"
    by (simp add: Feed_def)
  moreover have "allocBits (state sim) \<noteq> None \<and> MinAddr (state sim) \<le> Base e \<and>
      Base e + Size e \<le> MaxAddr (state sim) \<longrightarrow> grow (state sim) e = state sim"
    using grow_id by blast
  ultimately show ?thesis
    using grow_elems [of "state sim" e] by blast
qed

theorem C4_Feed_other_kind_witness:
  "Kind \<lparr>Kind = EventBad, P = 0, Time = 7, Base = 0x12000, Size = 0x4000\<rparr> \<noteq> EventAllocate \<and>
   Kind \<lparr>Kind = EventBad, P = 0, Time = 7, Base = 0x12000, Size = 0x4000\<rparr> \<noteq> EventFree \<and>
   Kind \<lparr>Kind = EventBad, P = 0, Time = 7, Base = 0x12000, Size = 0x4000\<rparr> \<noteq> EventScavenge \<and>
   Feed \<lparr>clock = 3, state = \<lparr>minAddr = 0x10000, allocBits = Some [5], scavBits = Some [2]\<rparr>\<rparr>
        \<lparr>Kind = EventBad, P = 0, Time = 7, Base = 0x12000, Size = 0x4000\<rparr>
     = Some \<lparr>clock = 7, state = \<lparr>minAddr = 0x10000, allocBits = Some [5], scavBits = Some [2]\<rparr>\<rparr>"
proof -
  let ?e = "\<lparr>Kind = EventBad, P = 0, Time = 7, Base = 0x12000, Size = 0x4000\<rparr>"
  let ?sim = "\<lparr>clock = 3, state = \<lparr>minAddr = 0x10000, allocBits = Some [5], scavBits = Some [2]\<rparr>\<rparr>"
  have k: "Kind ?e \<noteq> EventAllocate" "Kind ?e \<noteq> EventFree" "Kind ?e \<noteq> EventScavenge"
    by (simp_all add: EventBad_def EventAllocate_def EventFree_def EventScavenge_def)
  have r: "allocBits (state ?sim) \<noteq> None \<and> MinAddr (state ?sim) \<le> Base ?e \<and>
      Base ?e + Size ?e \<le> MaxAddr (state ?sim)"
    by (simp add: MinAddr_def MaxAddr_def State_Size_def len_def pageSize_def pageShift_def)
  from C4_Feed_other_kind [OF k, of ?sim] r
  have "Feed ?sim ?e = Some (?sim\<lparr>clock := Time ?e, state := state ?sim\<rparr>)"
    by auto
  with k show ?thesis
    by simp
qed

text \<open>
  C4, as stated, fails: \<open>update\<close> grows the bitmaps before it looks at the kind. Feeding
  a Bad event at \<open>0x10000\<close> to the zero simulator moves \<open>MinAddr\<close> from 0 to \<open>0x10000\<close>,
  \<open>Size\<close> from 0 to \<open>0x10000\<close>, and \<open>IsScavenged 0x10000\<close> from true to false.
\<close>

theorem C4_counterexample:
  "Kind \<lparr>Kind = EventBad, P = 0, Time = 0, Base = 0x10000, Size = 0x2000\<rparr> \<noteq> EventAllocate \<and>
   Kind \<lparr>Kind = EventBad, P = 0, Time = 0, Base = 0x10000, Size = 0x2000\<rparr> \<noteq> EventFree \<and>
   Kind \<lparr>Kind = EventBad, P = 0, Time = 0, Base = 0x10000, Size = 0x2000\<rparr> \<noteq> EventScavenge \<and>
   Feed Simulator0 \<lparr>Kind = EventBad, P = 0, Time = 0, Base = 0x10000, Size = 0x2000\<rparr>
     = Some \<lparr>clock = 0, state = \<lparr>minAddr = 0x10000, allocBits = Some [0], scavBits = Some [0]\<rparr>\<rparr> \<and>
   MinAddr (state Simulator0) = 0 \<and>
   MinAddr \<lparr>minAddr = 0x10000, allocBits = Some [0], scavBits = Some [0]\<rparr> = 0x10000 \<and>
   State_Size (state Simulator0) = 0 \<and>
   State_Size \<lparr>minAddr = 0x10000, allocBits = Some [0], scavBits = Some [0]\<rparr> = 0x10000 \<and>
   IsScavenged (state Simulator0) 0x10000 = Some True \<and>
   IsScavenged \<lparr>minAddr = 0x10000, allocBits = Some [0], scavBits = Some [0]\<rparr> 0x10000 = Some False"
  by (simp add: sim_eval)

text \<open>
  C3, as stated, fails: from the empty state, an Allocate of the page at \<open>0x10000\<close>
  followed by a Scavenge of the same page leaves that page with its alloc bit and its
  scav bit both set.
\<close>

theorem C3_counterexample:
  "update State0 \<lparr>Kind = EventAllocate, P = 0, Time = 0, Base = 0x10000, Size = 0x2000\<rparr>
     = Some \<lparr>minAddr = 0x10000, allocBits = Some [1], scavBits = Some [0]\<rparr> \<and>
   update \<lparr>minAddr = 0x10000, allocBits = Some [1], scavBits = Some [0]\<rparr>
       \<lparr>Kind = EventScavenge, P = 0, Time = 1, Base = 0x10000, Size = 0x2000\<rparr>
     = Some \<lparr>minAddr = 0x10000, allocBits = Some [1], scavBits = Some [1]\<rparr> \<and>
   bitAt (allocBits \<lparr>minAddr = 0x10000, allocBits = Some [1], scavBits = Some [1]\<rparr>) 0 = Some True \<and>
   bitAt (scavBits \<lparr>minAddr = 0x10000, allocBits = Some [1], scavBits = Some [1]\<rparr>) 0 = Some True \<and>
   IsAllocated \<lparr>minAddr = 0x10000, allocBits = Some [1], scavBits = Some [1]\<rparr> 0x10000 = Some True \<and>
   IsScavenged \<lparr>minAddr = 0x10000, allocBits = Some [1], scavBits = Some [1]\<rparr> 0x10000 = Some True"
  by (simp add: sim_eval)

theorem C3_update_witness:
  "update \<lparr>minAddr = 0x10000, allocBits = Some [0], scavBits = Some [3]\<rparr>
       \<lparr>Kind = EventAllocate, P = 0, Time = 0, Base = 0x10000, Size = 0x4000\<rparr>
     = Some \<lparr>minAddr = 0x10000, allocBits = Some [3], scavBits = Some [0]\<rparr> \<and>
   noBothSet \<lparr>minAddr = 0x10000, allocBits = Some [0], scavBits = Some [3]\<rparr> \<and>
   bitAt (scavBits \<lparr>minAddr = 0x10000, allocBits = Some [3], scavBits = Some [0]\<rparr>) 1 = Some False \<and>
   bitAt (allocBits \<lparr>minAddr = 0x10000, allocBits = Some [3], scavBits = Some [0]\<rparr>) 1 = Some True \<and>
   noBothSet \<lparr>minAddr = 0x10000, allocBits = Some [3], scavBits = Some [0]\<rparr>"
proof -
  let ?s = "\<lparr>minAddr = 0x10000, allocBits = Some [0], scavBits = Some [3]\<rparr>"
  let ?e = "\<lparr>Kind = EventAllocate, P = 0, Time = 0, Base = 0x10000, Size = 0x4000\<rparr>"
  let ?s' = "\<lparr>minAddr = 0x10000, allocBits = Some [3], scavBits = Some [0]\<rparr>"
  have u: "update ?s ?e = Some ?s'"
    by (simp add: sim_eval)
  have n: "noBothSet ?s"
    by (simp add: noBothSet_def elems_def)
  have r: "(Base ?e - minAddr ?s') div pageSize \<le> 1 \<and> 1 < (Base ?e + Size ?e - minAddr ?s') div pageSize"
    by (simp add: pageSize_def pageShift_def)
  from C3_update [OF u] n r
  have "bitAt (scavBits ?s') 1 = Some False \<and> bitAt (allocBits ?s') 1 = Some True \<and> noBothSet ?s'"
    by simp
  with u n show ?thesis
    by simp
qed

text \<open>
  A Free event whose size is not a whole number of pages, fed twice. After an Allocate at
  \<open>0x100000\<close>, the Free event with base \<open>0x80000\<close> and size \<open>0x10001\<close> lowers \<open>minAddr\<close>
  without adding bytes in front, so the first \<open>Feed\<close> leaves one byte per bitmap; the
  second \<open>Feed\<close> of the same event then finds its end beyond \<open>MaxAddr\<close> and grows both
  bitmaps to two bytes. (The parser makes no such event: \<open>makeEvent\<close> sets the size to
  \<open>pageSize * npages\<close>.)
\<close>

lemma Feed_Free_twice_unaligned:
  "Feed Simulator0 \<lparr>Kind = EventAllocate, P = 0, Time = 0, Base = 0x100000, Size = 0x2000\<rparr>
     = Some \<lparr>clock = 0, state = \<lparr>minAddr = 0x100000, allocBits = Some [1], scavBits = Some [0]\<rparr>\<rparr> \<and>
   Feed \<lparr>clock = 0, state = \<lparr>minAddr = 0x100000, allocBits = Some [1], scavBits = Some [0]\<rparr>\<rparr>
        \<lparr>Kind = EventFree, P = 0, Time = 1, Base = 0x80000, Size = 0x10001\<rparr>
     = Some \<lparr>clock = 1, state = \<lparr>minAddr = 0x80000, allocBits = Some [0], scavBits = Some [0]\<rparr>\<rparr> \<and>
   Feed \<lparr>clock = 1, state = \<lparr>minAddr = 0x80000, allocBits = Some [0], scavBits = Some [0]\<rparr>\<rparr>
        \<lparr>Kind = EventFree, P = 0, Time = 1, Base = 0x80000, Size = 0x10001\<rparr>
     = Some \<lparr>clock = 1, state = \<lparr>minAddr = 0x80000, allocBits = Some [0, 0], scavBits = Some [0, 0]\<rparr>\<rparr>"
  by (simp add: sim_eval)

text \<open>
  C10: the code at an index outside the bitmaps. After an Allocate of eight pages at
  \<open>0x100000\<close> (one byte per bitmap), an Allocate of 128 pages at base 0 takes the front
  branch of \<open>update\<close>: \<open>minAddr\<close> becomes 0 first, \<open>MaxAddr\<close> is then read from the new
  \<open>minAddr\<close>, the new size equals the old length and nothing is added in front. The
  loop then writes \<open>allocBits[1]\<close> of a one-byte slice: \<open>update\<close> panics.
\<close>

theorem C10_update_index_out_of_range:
  "update State0 \<lparr>Kind = EventAllocate, P = 0, Time = 0, Base = 0x100000, Size = 0x10000\<rparr>
     = Some \<lparr>minAddr = 0x100000, allocBits = Some [255], scavBits = Some [0]\<rparr> \<and>
   grow \<lparr>minAddr = 0x100000, allocBits = Some [255], scavBits = Some [0]\<rparr>
       \<lparr>Kind = EventAllocate, P = 0, Time = 1, Base = 0, Size = 0x100000\<rparr>
     = \<lparr>minAddr = 0, allocBits = Some [255], scavBits = Some [0]\<rparr> \<and>
   setBit (Some [255]) 8 = None \<and>
   update \<lparr>minAddr = 0x100000, allocBits = Some [255], scavBits = Some [0]\<rparr>
       \<lparr>Kind = EventAllocate, P = 0, Time = 1, Base = 0, Size = 0x100000\<rparr>
     = None"
  by (simp add: sim_eval)

section \<open>\<open>Allocated\<close> and \<open>Validate\<close>\<close>

lemma and_not_8191: "x AND - 8192 = push_bit 13 (drop_bit 13 x)" for x :: "64 word"
proof (rule bit_word_eqI)
  fix n
  assume "n < LENGTH(64)"
  have m: "(- 8192 :: 64 word) = NOT (mask 13)"
    using minus_exp_eq_not_mask [of 13, where ?'a = "64 word"] by simp
  show "bit (x AND - 8192) n = bit (push_bit 13 (drop_bit 13 x)) n"
  proof (cases "13 \<le> n")
    case True
    then have "13 + (n - 13) = n"
      by simp
    then show ?thesis
      unfolding m using True \<open>n < LENGTH(64)\<close>
      by (simp add: bit_and_iff bit_not_iff bit_mask_iff bit_push_bit_iff bit_drop_bit_eq)
  next
    case False
    then show ?thesis
      unfolding m by (simp add: bit_and_iff bit_not_iff bit_mask_iff bit_push_bit_iff)
  qed
qed

lemma unat_and_not_8191: "unat (x AND - 8192) = unat x div 8192 * 8192" for x :: "64 word"
proof -
  have d: "unat (drop_bit 13 x) = unat x div 8192"
    by (simp add: drop_bit_eq_div unat_div)
  have "unat x < 2 ^ 64"
    using unsigned_less [of x] by simp
  moreover have "unat x div 8192 * 8192 \<le> unat x"
    by simp
  ultimately have "unat x div 8192 * 8192 < 2 ^ 64"
    by (rule order_le_less_trans [rotated])
  then show ?thesis
    unfolding and_not_8191 using d by (simp add: push_bit_eq_mult unat_word_ariths)
qed




lemma alignUp_pageSize: "alignUp x pageSize = (8191 + x) AND - 8192"
  by (simp add: alignUp_def pageSize_def pageShift_def)

lemma unat_alignUp: "unat (alignUp x pageSize) = ((8191 + unat x) mod 2 ^ 64) div 8192 * 8192"
proof -
  have "unat (8191 + x) = (8191 + unat x) mod 2 ^ 64"
    by (simp add: unat_word_ariths)
  then show ?thesis
    by (simp only: alignUp_pageSize unat_and_not_8191)
qed

lemma pageSize_8192: "pageSize = 8192" "unat pageSize = 8192"
  by (simp_all add: pageSize_def pageShift_def)

lemma aligned_iff: "(x mod pageSize = 0) = (unat x mod 8192 = 0)"
  by (simp add: pageSize_8192 word_unat_eq_iff unat_mod)

lemma aligned_le_top:
  fixes x :: "64 word"
  assumes "unat x mod 8192 = 0"
  shows "unat x + 8192 \<le> 2 ^ 64"
proof -
  from assms have "8192 dvd unat x"
    by (simp add: mod_eq_0_iff_dvd)
  then obtain q where q: "unat x = 8192 * q"
    by (rule dvdE)
  have "unat x < 2 ^ 64"
    using unsigned_less [of x] by simp
  with q have "q < 2 ^ 51"
    by simp
  then have "8192 * q + 8192 \<le> 2 ^ 64"
    by simp
  with q show ?thesis
    by simp
qed


lemma alignUp_aligned:
  assumes "unat x mod 8192 = 0"
  shows "alignUp x pageSize = x"
proof -
  from assms have "8192 dvd unat x"
    by (simp add: mod_eq_0_iff_dvd)
  then obtain q where q: "unat x = 8192 * q"
    by (rule dvdE)
  have "8191 + unat x < 2 ^ 64"
    using aligned_le_top [OF assms] by simp
  then have "(8191 + unat x) mod 2 ^ 64 = unat x + 8191"
    by simp
  moreover have "(8191 + 8192 * q) div 8192 = q"
    by simp
  ultimately have "((8191 + unat x) mod 2 ^ 64) div 8192 * 8192 = unat x"
    using q by simp
  then show ?thesis
    by (intro word_unat_eq_iff [THEN iffD2]) (simp only: unat_alignUp)
qed

lemma unat_size_bytes: "unat (of_nat L * 8 * pageSize :: 64 word) \<le> L * 65536"
proof -
  have "(of_nat L * 8 * pageSize :: 64 word) = of_nat (L * 65536)"
    by (simp add: pageSize_8192)
  then show ?thesis
    by (simp only: unat_of_nat) simp
qed

lemma index_in_range:
  fixes addr m :: "64 word"
  assumes lo: "\<not> addr < m" and hi: "\<not> m + of_nat L * 8 * pageSize \<le> addr"
  shows "unat ((addr - m) div pageSize div 8) < L"
proof -
  let ?S = "of_nat L * 8 * pageSize :: 64 word"
  have m: "unat m \<le> unat addr"
    using lo by (simp add: word_less_nat_alt)
  have lt: "unat addr < unat (m + ?S)"
    using hi by (simp add: word_le_nat_alt)
  have nowrap: "unat m + unat ?S < 2 ^ 64"
  proof (rule ccontr)
    assume "\<not> unat m + unat ?S < 2 ^ 64"
    then have "unat (m + ?S) = unat m + unat ?S - 2 ^ 64"
      by (simp add: unat_plus_if')
    moreover have "unat ?S < 2 ^ 64"
      using unsigned_less [of ?S] by simp
    ultimately show False
      using m lt by simp
  qed
  then have "unat (m + ?S) = unat m + unat ?S"
    by (simp add: unat_plus_if')
  with lt m unat_size_bytes [of L] have d: "unat addr - unat m < L * 65536"
    by linarith
  have "unat ((addr - m) div pageSize div 8) = (unat addr - unat m) div 8192 div 8"
    using m by (simp add: unat_div unat_sub word_le_nat_alt pageSize_8192)
  also have "\<dots> = (unat addr - unat m) div 65536"
    by (simp add: div_mult2_eq [symmetric])
  also have "\<dots> < L"
    using d by (simp add: less_mult_imp_div_less)
  finally show ?thesis .
qed













text \<open>
  States built from page-aligned events keep a page-aligned base address: \<open>update\<close>
  either leaves \<open>minAddr\<close> alone or sets it to the event's base.
\<close>

lemma grow_minAddr: "minAddr (grow s e) = minAddr s \<or> minAddr (grow s e) = Base e"
  by (simp add: grow_def Let_def)

lemma update_minAddr_aligned:
  assumes "update s e = Some s'" and "Base e mod pageSize = 0" and "minAddr s mod pageSize = 0"
  shows "minAddr s' mod pageSize = 0"
proof -
  from assms(1) have "minAddr s' = minAddr (grow s e)"
    by (simp add: update_def Let_def update_loop_minAddr)
  with grow_minAddr [of s e] have "minAddr s' = minAddr s \<or> minAddr s' = Base e"
    by simp
  then show ?thesis
  proof
    assume "minAddr s' = minAddr s"
    then show ?thesis
      using assms(3) by (simp only:)
  next
    assume "minAddr s' = Base e"
    then show ?thesis
      using assms(2) by (simp only:)
  qed
qed

lemma Validate_Free_without_Allocate:
  "Validate Simulator0 \<lparr>Kind = EventFree, P = 0, Time = 0, Base = 0x10000, Size = 0x4000\<rparr>
     = Some (Some (DoubleFree 0x4000 0))"
  by (simp add: Validate_def Allocated_def Let_def Allocated_loop.simps IsAllocated_def MinAddr_def
      MaxAddr_def State_Size_def len_def elems_def bitAt_def pageSize_8192 Simulator0_def State0_def
      alignUp_def alignDown_def EventFree_def EventBad_def EventAllocate_def)



section \<open>Slicing a trace\<close>

text \<open>
  C6: \<open>Slice t s e\<close> copies \<open>minAddr\<close>, \<open>maxAddr\<close> (and \<open>minTraceTime\<close>, the reader and the
  number of processors) over unchanged. With the bounds clamped to \<open>[startTime, endTime]\<close>:
  if the clamped end is at most the clamped start, the result has no intervals and its
  \<open>startTime\<close> and \<open>endTime\<close> are both \<open>minTraceTime\<close>; otherwise its times are the clamped
  bounds and each processor keeps, in order, exactly the intervals \<open>iv\<close> with
  \<open>iv.endTime \<ge> start\<close> and \<open>iv.startTime \<le> end\<close>.
\<close>

theorem C6_Slice:
  "tr_minAddr (Slice t s e) = tr_minAddr t \<and> tr_maxAddr (Slice t s e) = tr_maxAddr t \<and>
   minTraceTime (Slice t s e) = minTraceTime t \<and> r (Slice t s e) = r t \<and>
   length (blocks (Slice t s e)) = length (blocks t) \<and>
   (if clampEnd t e \<le>s clampStart t s
    then startTime (Slice t s e) = minTraceTime t \<and> endTime (Slice t s e) = minTraceTime t \<and>
         (\<forall>i < length (blocks t). blocks (Slice t s e) ! i = [])
    else startTime (Slice t s e) = clampStart t s \<and> endTime (Slice t s e) = clampEnd t e \<and>
         (\<forall>i < length (blocks t). blocks (Slice t s e) ! i =
            filter (\<lambda>iv. clampStart t s \<le>s iv_endTime iv \<and> iv_startTime iv \<le>s clampEnd t e)
              (blocks t ! i)))"
proof -
  have p: "(\<lambda>iv. \<not> (iv_endTime iv <s a \<or> b <s iv_startTime iv)) =
      (\<lambda>iv. a \<le>s iv_endTime iv \<and> iv_startTime iv \<le>s b)" for a b :: "64 word"
    by (auto simp: signed.not_less)
  show ?thesis
    unfolding Slice_def Let_def clampStart_def [symmetric] clampEnd_def [symmetric] p
    by simp
qed

theorem C6_Slice_witness:
  "clampStart \<lparr>r = [], blocks = [[\<lparr>iv_start = 0, iv_end = 24, iv_startTime = 1600, iv_endTime = 1700\<rparr>,
                               \<lparr>iv_start = 24, iv_end = 48, iv_startTime = 1900, iv_endTime = 2000\<rparr>]],
     minTraceTime = 1600, startTime = 1600, endTime = 2000, tr_minAddr = 0x10000, tr_maxAddr = 0x20000\<rparr> 0 = 1600 \<and>
   clampEnd \<lparr>r = [], blocks = [[\<lparr>iv_start = 0, iv_end = 24, iv_startTime = 1600, iv_endTime = 1700\<rparr>,
                               \<lparr>iv_start = 24, iv_end = 48, iv_startTime = 1900, iv_endTime = 2000\<rparr>]],
     minTraceTime = 1600, startTime = 1600, endTime = 2000, tr_minAddr = 0x10000, tr_maxAddr = 0x20000\<rparr> 200 = 1800 \<and>
   blocks (Slice \<lparr>r = [], blocks = [[\<lparr>iv_start = 0, iv_end = 24, iv_startTime = 1600, iv_endTime = 1700\<rparr>,
                               \<lparr>iv_start = 24, iv_end = 48, iv_startTime = 1900, iv_endTime = 2000\<rparr>]],
     minTraceTime = 1600, startTime = 1600, endTime = 2000, tr_minAddr = 0x10000, tr_maxAddr = 0x20000\<rparr> 0 200)
     = [[\<lparr>iv_start = 0, iv_end = 24, iv_startTime = 1600, iv_endTime = 1700\<rparr>]] \<and>
   startTime (Slice \<lparr>r = [], blocks = [[\<lparr>iv_start = 0, iv_end = 24, iv_startTime = 1600, iv_endTime = 1700\<rparr>,
                               \<lparr>iv_start = 24, iv_end = 48, iv_startTime = 1900, iv_endTime = 2000\<rparr>]],
     minTraceTime = 1600, startTime = 1600, endTime = 2000, tr_minAddr = 0x10000, tr_maxAddr = 0x20000\<rparr> 0 200) = 1600"
proof -
  let ?t = "\<lparr>r = [], blocks = [[\<lparr>iv_start = 0, iv_end = 24, iv_startTime = 1600, iv_endTime = 1700\<rparr>,
                               \<lparr>iv_start = 24, iv_end = 48, iv_startTime = 1900, iv_endTime = 2000\<rparr>]],
     minTraceTime = 1600, startTime = 1600, endTime = 2000, tr_minAddr = 0x10000, tr_maxAddr = 0x20000\<rparr>"
  have cs: "clampStart ?t 0 = 1600" and ce: "clampEnd ?t 200 = 1800"
    by (simp_all add: clampStart_def clampEnd_def)
  have ne: "\<not> clampEnd ?t 200 \<le>s clampStart ?t 0"
    unfolding cs ce by simp
  from C6_Slice [of ?t 0 200] ne
  have "startTime (Slice ?t 0 200) = clampStart ?t 0 \<and>
        (\<forall>i<length (blocks ?t). blocks (Slice ?t 0 200) ! i =
           filter (\<lambda>iv. clampStart ?t 0 \<le>s iv_endTime iv \<and> iv_startTime iv \<le>s clampEnd ?t 200) (blocks ?t ! i))
        \<and> length (blocks (Slice ?t 0 200)) = length (blocks ?t)"
    by simp
  then have "startTime (Slice ?t 0 200) = 1600" and "blocks (Slice ?t 0 200) ! 0 =
      [\<lparr>iv_start = 0, iv_end = 24, iv_startTime = 1600, iv_endTime = 1700\<rparr>]"
    and "length (blocks (Slice ?t 0 200)) = 1"
    unfolding cs ce by simp_all
  then have "blocks (Slice ?t 0 200) = [[\<lparr>iv_start = 0, iv_end = 24, iv_startTime = 1600, iv_endTime = 1700\<rparr>]]"
    by (cases "blocks (Slice ?t 0 200)") auto
  with cs ce \<open>startTime (Slice ?t 0 200) = 1600\<close> show ?thesis
    by simp
qed

section \<open>The trace indexer: intervals\<close>

lemma closedIv_mono: "closedIv rd hi i iv \<Longrightarrow> hi \<le> hi' \<Longrightarrow> closedIv rd hi' i iv"
  by (auto simp: closedIv_def)

lemma closedIv_advance: "closedIv rd off i iv \<Longrightarrow> closedIv rd (off + 8) i iv"
  by (auto simp: closedIv_def)

lemma openIv_advance: "openIv rd off False i iv \<Longrightarrow> openIv rd (off + 8) False i iv"
  by (auto simp: openIv_def)

lemma openIv_sync:
  "openIv rd off True i iv \<Longrightarrow> kind (wordAt rd off) = sync \<Longrightarrow> openIv rd (off + 8) False i iv"
  by (auto simp: openIv_def)

lemma openIv_close:
  "openIv rd off False i iv \<Longrightarrow> off mod 8 = 0 \<Longrightarrow> closedIv rd (off + 8) i (iv\<lparr>iv_end := off, iv_endTime := t\<rparr>)"
  by (auto simp: openIv_def closedIv_def)

lemma openIv_close_final:
  "openIv rd off wt i iv \<Longrightarrow> off mod 8 = 0 \<Longrightarrow> closedIv rd off i (iv\<lparr>iv_end := off\<rparr>)"
  by (auto simp: openIv_def closedIv_def split: if_splits)

lemma openIv_startTime: "openIv rd off wt i (iv\<lparr>iv_startTime := t\<rparr>) = openIv rd off wt i iv"
  by (simp add: openIv_def)

lemma nth_update_if: "xs[a := x] ! j = (if a = j \<and> a < length xs then x else xs ! j)"
  by (cases "a < length xs") (auto simp: nth_list_update list_update_beyond)

lemma indexInvI:
  assumes "off mod 8 = 0" and "0 \<le> off"
    and "wantTime ix \<Longrightarrow> \<not> expectNpagesTrailer ix \<and> cur ix \<noteq> None"
    and "\<And>i k. cur ix = Some (i, k) \<Longrightarrow> i < length (ix_blocks ix) \<and> k < length (ix_blocks ix ! i)"
    and "\<And>i k. i < length (ix_blocks ix) \<Longrightarrow> k < length (ix_blocks ix ! i) \<Longrightarrow> cur ix = Some (i, k) \<Longrightarrow>
           openIv rd off (wantTime ix) i (ix_blocks ix ! i ! k)"
    and "\<And>i k. i < length (ix_blocks ix) \<Longrightarrow> k < length (ix_blocks ix ! i) \<Longrightarrow> cur ix \<noteq> Some (i, k) \<Longrightarrow>
           closedIv rd off i (ix_blocks ix ! i ! k)"
  shows "indexInv rd off ix"
  unfolding indexInv_def using assms by simp

lemma indexInvD:
  assumes "indexInv rd off ix"
  shows "off mod 8 = 0" and "0 \<le> off"
    and "wantTime ix \<Longrightarrow> \<not> expectNpagesTrailer ix \<and> cur ix \<noteq> None"
    and "\<And>i k. cur ix = Some (i, k) \<Longrightarrow> i < length (ix_blocks ix) \<and> k < length (ix_blocks ix ! i)"
    and "\<And>i k. i < length (ix_blocks ix) \<Longrightarrow> k < length (ix_blocks ix ! i) \<Longrightarrow> cur ix = Some (i, k) \<Longrightarrow>
           openIv rd off (wantTime ix) i (ix_blocks ix ! i ! k)"
    and "\<And>i k. i < length (ix_blocks ix) \<Longrightarrow> k < length (ix_blocks ix ! i) \<Longrightarrow> cur ix \<noteq> Some (i, k) \<Longrightarrow>
           closedIv rd off i (ix_blocks ix ! i ! k)"
  using assms unfolding indexInv_def by simp_all

text \<open>A step that leaves the block list, \<open>cur\<close> and a cleared \<open>wantTime\<close> alone.\<close>

lemma indexInv_frame:
  assumes inv: "indexInv rd off ix" and "\<not> wantTime ix" and B: "ix_blocks ix' = ix_blocks ix"
    and c: "cur ix' = cur ix" and w: "\<not> wantTime ix'"
  shows "indexInv rd (off + 8) ix'"
proof (rule indexInvI)
  show "(off + 8) mod 8 = 0" and "0 \<le> off + 8"
    using indexInvD(1,2) [OF inv] by simp_all
  show "\<not> expectNpagesTrailer ix' \<and> cur ix' \<noteq> None" if "wantTime ix'"
    using that w by simp
  show "i < length (ix_blocks ix') \<and> k < length (ix_blocks ix' ! i)" if "cur ix' = Some (i, k)" for i k
    using indexInvD(4) [OF inv, of i k] that by (simp add: B c)
  show "openIv rd (off + 8) (wantTime ix') i (ix_blocks ix' ! i ! k)"
    if "i < length (ix_blocks ix')" "k < length (ix_blocks ix' ! i)" "cur ix' = Some (i, k)" for i k
    using indexInvD(5) [OF inv, of i k] that assms(2) w by (simp add: B c openIv_advance)
  show "closedIv rd (off + 8) i (ix_blocks ix' ! i ! k)"
    if "i < length (ix_blocks ix')" "k < length (ix_blocks ix' ! i)" "cur ix' \<noteq> Some (i, k)" for i k
    using indexInvD(6) [OF inv, of i k] that by (simp add: B c closedIv_advance)
qed

lemma write_cur_fields:
  "cur (write_cur f ix) = cur ix" "wantTime (write_cur f ix) = wantTime ix"
  "expectNpagesTrailer (write_cur f ix) = expectNpagesTrailer ix"
  "length (ix_blocks (write_cur f ix)) = length (ix_blocks ix)"
  by (auto simp: write_cur_def split: option.splits)

lemma write_cur_length:
  "length (ix_blocks (write_cur f ix) ! i) = length (ix_blocks ix ! i)"
  by (auto simp: write_cur_def nth_update_if split: option.splits)

lemma write_cur_nth:
  assumes "i < length (ix_blocks ix)" and "k < length (ix_blocks ix ! i)"
  shows "ix_blocks (write_cur f ix) ! i ! k =
     (if cur ix = Some (i, k) then f (ix_blocks ix ! i ! k) else ix_blocks ix ! i ! k)"
  using assms by (auto simp: write_cur_def nth_update_if split: option.splits)

lemma index_extents_fields:
  assumes "index_extents e ix = Some (ix1, ct)"
  shows "ix_blocks ix1 = ix_blocks ix" and "cur ix1 = cur ix" and "wantTime ix1 = wantTime ix"
  using assms
  by (auto simp: index_extents_def Let_def split: if_splits option.splits prod.splits)

lemma pid_step:
  assumes inv: "indexInv rd off ix" and nw: "\<not> wantTime ix"
    and ne: "\<not> expectNpagesTrailer ix"
    and k: "kind (wordAt rd off) = pid" and hp: "header_pid (wordAt rd off) = Some p"
    and idx: "0 \<le> pidIndex p"
    and ix2: "ix2 = write_cur (\<lambda>iv. iv\<lparr>iv_end := off, iv_endTime := ct\<rparr>) ix"
    and bs: "bs = (if int (length (ix_blocks ix2)) < pidIndex p + 1
                   then ix_blocks ix2 @ replicate (nat (pidIndex p + 1 - int (length (ix_blocks ix2)))) []
                   else ix_blocks ix2)"
    and j: "j = nat (pidIndex p)"
    and ix': "ix' = (write_cur (\<lambda>iv. iv\<lparr>iv_start := off\<rparr>)
                 (ix2\<lparr>ix_blocks := bs[j := bs ! j @ [interval0]],
                      cur := Some (j, length (bs ! j @ [interval0]) - 1)\<rparr>))\<lparr>wantTime := True\<rparr>"
  shows "indexInv rd (off + 8) ix'"
proof -
  let ?B = "ix_blocks ix" and ?B2 = "ix_blocks ix2"
  let ?new = "interval0\<lparr>iv_start := off\<rparr>"
  have lenB2: "length ?B2 = length ?B"
    by (simp add: ix2 write_cur_fields)
  have jbs: "j < length bs"
    using idx by (auto simp: bs j)
  have le: "length ?B2 \<le> length bs"
    by (simp add: bs)
  have bs_old: "bs ! i = ?B2 ! i" if "i < length ?B2" for i
    using that by (simp add: bs nth_append)
  have bs_new: "bs ! i = []" if "length ?B2 \<le> i" "i < length bs" for i
    using that by (auto simp: bs nth_append split: if_splits)
  have B': "ix_blocks ix' = bs[j := bs ! j @ [?new]]"
    using jbs by (simp add: ix' write_cur_def)
  have c': "cur ix' = Some (j, length (bs ! j))"
    by (simp add: ix' write_cur_def)
  have w': "wantTime ix'"
    by (simp add: ix')
  have e': "expectNpagesTrailer ix' = expectNpagesTrailer ix"
    by (simp add: ix' ix2 write_cur_def split: option.splits)
  have off: "off mod 8 = 0" "0 \<le> off"
    using indexInvD(1,2) [OF inv] by simp_all
  have old_elem: "closedIv rd (off + 8) i (?B2 ! i ! k)"
    if "i < length ?B" "k < length (?B ! i)" for i k
  proof (cases "cur ix = Some (i, k)")
    case True
    then have "openIv rd off False i (?B ! i ! k)"
      using indexInvD(5) [OF inv that] nw by simp
    then have "closedIv rd (off + 8) i ((?B ! i ! k)\<lparr>iv_end := off, iv_endTime := ct\<rparr>)"
      using off(1) by (rule openIv_close)
    then show ?thesis
      using True that by (simp add: ix2 write_cur_nth)
  next
    case False
    then have "closedIv rd off i (?B ! i ! k)"
      using indexInvD(6) [OF inv that] by simp
    then have "closedIv rd (off + 8) i (?B ! i ! k)"
      by (rule closedIv_advance)
    then show ?thesis
      using False that by (simp add: ix2 write_cur_nth)
  qed
  have lenB2i: "length (?B2 ! i) = length (?B ! i)" for i
    by (simp add: ix2 write_cur_length)
  have new_open: "openIv rd (off + 8) True j ?new"
    using off k hp idx by (simp add: openIv_def pidAt_def interval0_def j)
  show ?thesis
  proof (rule indexInvI)
    show "(off + 8) mod 8 = 0" and "0 \<le> off + 8"
      using off by simp_all
    show "\<not> expectNpagesTrailer ix' \<and> cur ix' \<noteq> None" if "wantTime ix'"
      using ne by (simp add: e' c')
    show "i < length (ix_blocks ix') \<and> k < length (ix_blocks ix' ! i)" if "cur ix' = Some (i, k)" for i k
      using that jbs by (auto simp: c' B')
    show "openIv rd (off + 8) (wantTime ix') i (ix_blocks ix' ! i ! k)"
      if "i < length (ix_blocks ix')" "k < length (ix_blocks ix' ! i)" "cur ix' = Some (i, k)" for i k
      using that jbs new_open w' by (auto simp: c' B')
    show "closedIv rd (off + 8) i (ix_blocks ix' ! i ! k)"
      if i: "i < length (ix_blocks ix')" and kk: "k < length (ix_blocks ix' ! i)"
        and nc: "cur ix' \<noteq> Some (i, k)" for i k
    proof -
      from i have ibs: "i < length bs"
        by (simp add: B')
      have k_old: "k < length (bs ! i)" and el: "ix_blocks ix' ! i ! k = bs ! i ! k"
        using kk nc ibs by (auto simp: B' c' nth_update_if nth_append split: if_splits)
      have iB2: "i < length ?B2"
      proof (rule ccontr)
        assume "\<not> i < length ?B2"
        then have "bs ! i = []"
          using ibs by (simp add: bs_new)
        with k_old show False
          by simp
      qed
      then have "bs ! i = ?B2 ! i"
        by (rule bs_old)
      with k_old iB2 el show ?thesis
        using old_elem [of i k] by (simp add: lenB2 lenB2i)
    qed
  qed
qed

lemma sync_step:
  assumes inv: "indexInv rd off ix" and w: "wantTime ix" and k: "kind (wordAt rd off) = sync"
    and B: "ix_blocks ix2 = ix_blocks ix" and c: "cur ix2 = cur ix"
    and ix': "ix' = (write_cur (\<lambda>iv. iv\<lparr>iv_startTime := t\<rparr>) ix2)\<lparr>wantTime := False\<rparr>"
  shows "indexInv rd (off + 8) ix'"
proof (rule indexInvI)
  have c': "cur ix' = cur ix"
    by (simp add: ix' write_cur_fields c)
  have len: "length (ix_blocks ix') = length (ix_blocks ix)"
    by (simp add: ix' write_cur_fields B)
  have leni: "length (ix_blocks ix' ! i) = length (ix_blocks ix ! i)" for i
    by (simp add: ix' write_cur_length B)
  have nth: "ix_blocks ix' ! i ! k =
      (if cur ix = Some (i, k) then (ix_blocks ix ! i ! k)\<lparr>iv_startTime := t\<rparr> else ix_blocks ix ! i ! k)"
    if "i < length (ix_blocks ix)" "k < length (ix_blocks ix ! i)" for i k
    using that write_cur_nth [of i ix2 k] by (simp add: ix' B c)
  have w': "\<not> wantTime ix'"
    by (simp add: ix')
  show "(off + 8) mod 8 = 0" and "0 \<le> off + 8"
    using indexInvD(1,2) [OF inv] by simp_all
  show "\<not> expectNpagesTrailer ix' \<and> cur ix' \<noteq> None" if "wantTime ix'"
    using that w' by simp
  show "i < length (ix_blocks ix') \<and> k < length (ix_blocks ix' ! i)" if "cur ix' = Some (i, k)" for i k
    using indexInvD(4) [OF inv, of i k] that by (simp add: c' len leni)
  show "openIv rd (off + 8) (wantTime ix') i (ix_blocks ix' ! i ! k)"
    if "i < length (ix_blocks ix')" "k < length (ix_blocks ix' ! i)" "cur ix' = Some (i, k)" for i k
  proof -
    have "openIv rd off True i (ix_blocks ix ! i ! k)"
      using indexInvD(5) [OF inv, of i k] that w by (simp add: c' len leni)
    then have "openIv rd (off + 8) False i (ix_blocks ix ! i ! k)"
      using k by (rule openIv_sync)
    then show ?thesis
      using that w' by (simp add: nth c' len leni openIv_startTime)
  qed
  show "closedIv rd (off + 8) i (ix_blocks ix' ! i ! k)"
    if "i < length (ix_blocks ix')" "k < length (ix_blocks ix' ! i)" "cur ix' \<noteq> Some (i, k)" for i k
  proof -
    have "closedIv rd off i (ix_blocks ix ! i ! k)"
      using indexInvD(6) [OF inv, of i k] that by (simp add: c' len leni)
    then have "closedIv rd (off + 8) i (ix_blocks ix ! i ! k)"
      by (rule closedIv_advance)
    then show ?thesis
      using that by (simp add: nth c' len leni)
  qed
qed

lemma index_word_inv:
  assumes inv: "indexInv rd off ix" and step: "index_word off (wordAt rd off) ix = Inr ix'"
  shows "indexInv rd (off + 8) ix'"
proof (cases "expectNpagesTrailer ix")
  case True
  then have nw: "\<not> wantTime ix"
    using indexInvD(3) [OF inv] by blast
  from step True have "ix_blocks ix' = ix_blocks ix" "cur ix' = cur ix" "wantTime ix' = wantTime ix"
    by (auto simp: index_word_def Let_def split: if_splits)
  with inv nw show ?thesis
    by (intro indexInv_frame [OF inv nw]) simp_all
next
  case False
  let ?w = "wordAt rd off"
  obtain ix1 ct where pre: "(if kind ?w \<noteq> pid
               then (case index_extents ?w ix of
                       None \<Rightarrow> None
                     | Some (ix1, curTime) \<Rightarrow>
                         Some (if ix_endTime ix1 <s curTime then ix1\<lparr>ix_endTime := curTime\<rparr> else ix1,
                               curTime))
               else Some (ix, 0)) = Some (ix1, ct)"
    using step False by (auto simp: index_word_def split: option.splits)
  have f1: "ix_blocks ix1 = ix_blocks ix" "cur ix1 = cur ix" "wantTime ix1 = wantTime ix"
    using pre by (auto split: if_splits option.splits dest: index_extents_fields)
  have pid1: "ix1 = ix" if "kind ?w = pid"
    using pre that by simp
  from step False pre have rest: "(if wantTime ix1 then
               (if kind ?w \<noteq> sync then Inl ExpectedSync
                else (case timestamp ?w of
                        None \<Rightarrow> Inl Panic
                      | Some t \<Rightarrow>
                          let ix2 = (if ix_startTime ix1 = 0 \<or> t <s ix_startTime ix1
                                     then ix1\<lparr>ix_startTime := t\<rparr> else ix1);
                              ix3 = write_cur (\<lambda>iv. iv\<lparr>iv_startTime := t\<rparr>) ix2
                          in Inr (ix3\<lparr>wantTime := False\<rparr>)))
             else if kind ?w \<noteq> pid then Inr ix1
             else
               (case header_pid ?w of
                  None \<Rightarrow> Inl Panic
                | Some p \<Rightarrow>
                    let ix2 = write_cur (\<lambda>iv. iv\<lparr>iv_end := off, iv_endTime := ct\<rparr>) ix1;
                        idx = pidIndex p;
                        np = idx + 1;
                        bs = (if int (length (ix_blocks ix2)) < np
                              then ix_blocks ix2 @ replicate (nat (np - int (length (ix_blocks ix2)))) []
                              else ix_blocks ix2)
                    in if idx < 0 then Inl Panic
                       else
                         let b = bs ! nat idx @ [interval0];
                             ix3 = ix2\<lparr>ix_blocks := bs[nat idx := b], cur := Some (nat idx, length b - 1)\<rparr>;
                             ix4 = write_cur (\<lambda>iv. iv\<lparr>iv_start := off\<rparr>) ix3
                         in Inr (ix4\<lparr>wantTime := True\<rparr>))) = Inr ix'"
    by (simp add: index_word_def)
  show ?thesis
  proof (cases "wantTime ix")
    case True
    with rest f1 have k: "kind ?w = sync"
      by (auto split: if_splits)
    with rest True f1 obtain t where ts: "timestamp ?w = Some t"
      by (cases "timestamp ?w") auto
    from rest True f1 k ts
    have ix': "ix' = (write_cur (\<lambda>iv. iv\<lparr>iv_startTime := t\<rparr>)
          (if ix_startTime ix1 = 0 \<or> t <s ix_startTime ix1 then ix1\<lparr>ix_startTime := t\<rparr> else ix1))\<lparr>wantTime := False\<rparr>"
      by (simp add: Let_def)
    show ?thesis
      using inv True k _ _ ix' by (rule sync_step) (simp_all add: f1)
  next
    case nw: False
    show ?thesis
    proof (cases "kind ?w = pid")
      case False
      with rest nw f1 have "ix' = ix1"
        by simp
      with f1 nw show ?thesis
        by (intro indexInv_frame [OF inv nw]) simp_all
    next
      case True
      note p1 = pid1 [OF True]
      from rest nw True f1 obtain p where hp: "header_pid ?w = Some p" and idx: "0 \<le> pidIndex p"
        and ix': "ix' = (write_cur (\<lambda>iv. iv\<lparr>iv_start := off\<rparr>)
             ((write_cur (\<lambda>iv. iv\<lparr>iv_end := off, iv_endTime := ct\<rparr>) ix1)
               \<lparr>ix_blocks := (if int (length (ix_blocks (write_cur (\<lambda>iv. iv\<lparr>iv_end := off, iv_endTime := ct\<rparr>) ix1))) < pidIndex p + 1
                   then ix_blocks (write_cur (\<lambda>iv. iv\<lparr>iv_end := off, iv_endTime := ct\<rparr>) ix1) @ replicate (nat (pidIndex p + 1 - int (length (ix_blocks (write_cur (\<lambda>iv. iv\<lparr>iv_end := off, iv_endTime := ct\<rparr>) ix1))))) []
                   else ix_blocks (write_cur (\<lambda>iv. iv\<lparr>iv_end := off, iv_endTime := ct\<rparr>) ix1))
                  [nat (pidIndex p) := (if int (length (ix_blocks (write_cur (\<lambda>iv. iv\<lparr>iv_end := off, iv_endTime := ct\<rparr>) ix1))) < pidIndex p + 1
                   then ix_blocks (write_cur (\<lambda>iv. iv\<lparr>iv_end := off, iv_endTime := ct\<rparr>) ix1) @ replicate (nat (pidIndex p + 1 - int (length (ix_blocks (write_cur (\<lambda>iv. iv\<lparr>iv_end := off, iv_endTime := ct\<rparr>) ix1))))) []
                   else ix_blocks (write_cur (\<lambda>iv. iv\<lparr>iv_end := off, iv_endTime := ct\<rparr>) ix1)) ! nat (pidIndex p) @ [interval0]],
                 cur := Some (nat (pidIndex p), length ((if int (length (ix_blocks (write_cur (\<lambda>iv. iv\<lparr>iv_end := off, iv_endTime := ct\<rparr>) ix1))) < pidIndex p + 1
                   then ix_blocks (write_cur (\<lambda>iv. iv\<lparr>iv_end := off, iv_endTime := ct\<rparr>) ix1) @ replicate (nat (pidIndex p + 1 - int (length (ix_blocks (write_cur (\<lambda>iv. iv\<lparr>iv_end := off, iv_endTime := ct\<rparr>) ix1))))) []
                   else ix_blocks (write_cur (\<lambda>iv. iv\<lparr>iv_end := off, iv_endTime := ct\<rparr>) ix1)) ! nat (pidIndex p) @ [interval0]) - 1)\<rparr>))\<lparr>wantTime := True\<rparr>"
        by (auto simp only: Let_def if_False if_True not_not split: option.splits if_splits)
      show ?thesis
        using inv nw \<open>\<not> expectNpagesTrailer ix\<close> True hp idx _ _ _ ix' [unfolded p1]
        by (rule pid_step) (rule refl)+
    qed
  qed
qed

lemma index_words_inv:
  "indexInv rd off ix \<Longrightarrow> \<exists>n. buf = take n (drop (nat off) rd) \<Longrightarrow> length buf mod 8 = 0 \<Longrightarrow>
   index_words off buf ix = Inr ix' \<Longrightarrow> indexInv rd (off + int (length buf)) ix'"
proof (induction off buf ix rule: index_words.induct)
  case (1 off buf ix)
  show ?case
  proof (cases "length buf < 8")
    case True
    then have "length buf mod 8 = length buf"
      by simp
    with "1.prems"(3) have "length buf = 0"
      by simp
    moreover from True "1.prems"(4) have "ix' = ix"
      by (subst (asm) index_words.simps) simp
    ultimately show ?thesis
      using "1.prems"(1) by simp
  next
    case False
    from "1.prems"(2) obtain n where buf: "buf = take n (drop (nat off) rd)"
      by blast
    with False have n8: "8 \<le> n"
      by simp
    have off0: "0 \<le> off"
      using indexInvD(2) [OF "1.prems"(1)] .
    have w: "le64 (take 8 buf) = wordAt rd off"
      using n8 by (simp add: buf wordAt_def min_def)
    from False "1.prems"(4) obtain ix1 where s1: "index_word off (le64 (take 8 buf)) ix = Inr ix1"
      and rest: "index_words (off + 8) (drop 8 buf) ix1 = Inr ix'"
      by (subst (asm) index_words.simps) (auto split: sum.splits)
    have inv1: "indexInv rd (off + 8) ix1"
      using "1.prems"(1) s1 unfolding w by (rule index_word_inv)
    have "drop 8 buf = take (n - 8) (drop (nat (off + 8)) rd)"
      using off0 by (simp add: buf drop_take nat_add_distrib add.commute)
    then have ex: "\<exists>m. drop 8 buf = take m (drop (nat (off + 8)) rd)"
      by blast
    have "8 dvd length buf"
      using "1.prems"(3) by (simp add: mod_eq_0_iff_dvd)
    moreover have "8 dvd (8::nat)"
      by simp
    ultimately have "8 dvd length buf - 8"
      by (rule dvd_diff_nat)
    then have m8: "length (drop 8 buf) mod 8 = 0"
      by (simp add: mod_eq_0_iff_dvd)
    have "indexInv rd (off + 8 + int (length (drop 8 buf))) ix'"
      using "1.IH" [OF False s1 inv1 ex m8 rest] .
    moreover have "off + 8 + int (length (drop 8 buf)) = off + int (length buf)"
      using False by simp
    ultimately show ?thesis
      by simp
  qed
qed

lemma index_chunks_inv:
  "indexInv rd (int cursor) ix \<Longrightarrow> cursor \<le> length rd \<Longrightarrow>
   index_chunks rd cursor ix = Inr (ix', c') \<Longrightarrow> indexInv rd (int c') ix' \<and> c' \<le> length rd"
proof (induction rd cursor ix rule: index_chunks.induct)
  case (1 rd cursor ix)
  define buf where "buf = take 32768 (drop cursor rd)"
  define n where "n = length buf"
  have eq: "index_chunks rd cursor ix =
      (if n mod 8 \<noteq> 0 then Inl NotMultipleOf8
       else (case index_words (int cursor) buf ix of
               Inl err \<Rightarrow> Inl err
             | Inr ix1 \<Rightarrow> if n < 32768 then Inr (ix1, cursor + n)
                          else index_chunks rd (cursor + n) ix1))"
    unfolding n_def buf_def by (subst index_chunks.simps) (simp add: Let_def)
  from "1.prems"(3) have m8: "n mod 8 = 0"
    unfolding eq by (auto split: if_splits)
  with "1.prems"(3) obtain ix1 where w: "index_words (int cursor) buf ix = Inr ix1"
    and rest: "(if n < 32768 then Inr (ix1, cursor + n)
                else index_chunks rd (cursor + n) ix1) = Inr (ix', c')"
    unfolding eq by (auto split: sum.splits)
  have "\<exists>m. buf = take m (drop (nat (int cursor)) rd)"
    by (auto simp: buf_def)
  with "1.prems"(1) have "indexInv rd (int cursor + int (length buf)) ix1"
    using m8 w unfolding n_def by (rule index_words_inv)
  then have inv1: "indexInv rd (int (cursor + n)) ix1"
    by (simp add: n_def)
  have le: "cursor + n \<le> length rd"
    using "1.prems"(2) by (simp add: n_def buf_def)
  show ?case
  proof (cases "n < 32768")
    case True
    with rest have "ix' = ix1" "c' = cursor + n"
      by simp_all
    with inv1 le show ?thesis
      by simp
  next
    case False
    with rest have rr: "index_chunks rd (cursor + n) ix1 = Inr (ix', c')"
      by simp
    have nm: "\<not> n mod 8 \<noteq> 0"
      using m8 by simp
    show ?thesis
      using "1.IH" [OF buf_def n_def nm w False inv1 le rr] .
  qed
qed

lemma indexInv_indexer0: "indexInv rd 0 indexer0"
  by (rule indexInvI) (simp_all add: indexer0_def)

lemma NewTrace_closedIv:
  assumes nt: "NewTrace rd = Inr t" and i: "i < length (blocks t)" and iv: "iv \<in> set (blocks t ! i)"
  shows "closedIv rd (int (length rd)) i iv"
proof -
  from nt obtain ix c where ch: "index_chunks rd 0 indexer0 = Inr (ix, c)"
    and t: "blocks t = ix_blocks (write_cur (\<lambda>iv. iv\<lparr>iv_end := int c\<rparr>) ix)"
    by (auto simp: NewTrace_def Let_def split: sum.splits prod.splits)
  have "indexInv rd (int 0) indexer0"
    using indexInv_indexer0 [of rd] by simp
  then have "indexInv rd (int c) ix \<and> c \<le> length rd"
    using _ ch by (rule index_chunks_inv) simp
  then have inv: "indexInv rd (int c) ix" and c: "c \<le> length rd"
    by simp_all
  from i have i': "i < length (ix_blocks ix)"
    by (simp add: t write_cur_fields)
  from iv obtain k where k: "k < length (blocks t ! i)" and el: "iv = blocks t ! i ! k"
    by (auto simp: in_set_conv_nth)
  then have k': "k < length (ix_blocks ix ! i)"
    by (simp add: t write_cur_length)
  have "closedIv rd (int c) i iv"
  proof (cases "cur ix = Some (i, k)")
    case True
    then have "openIv rd (int c) (wantTime ix) i (ix_blocks ix ! i ! k)"
      using indexInvD(5) [OF inv i' k'] by simp
    then have "closedIv rd (int c) i ((ix_blocks ix ! i ! k)\<lparr>iv_end := int c\<rparr>)"
      using indexInvD(1) [OF inv] by (rule openIv_close_final)
    then show ?thesis
      using True i' k' by (simp add: el t write_cur_nth)
  next
    case False
    then have "closedIv rd (int c) i (ix_blocks ix ! i ! k)"
      using indexInvD(6) [OF inv i' k'] by simp
    then show ?thesis
      using False i' k' by (simp add: el t write_cur_nth)
  qed
  moreover have "int c \<le> int (length rd)"
    using c by simp
  ultimately show ?thesis
    by (rule closedIv_mono)
qed

lemmas codec_eval = kind_def kindMask_def kindBits_def pid_def sync_def timestamp_def timeLostBits_def
  header_pid_def pidIndex_def large_def base_def timestampDelta_def npagesSmall_def pageSize_def
  pageShift_def heapAddrBits_def timeDeltaBits_def kindNoLarge_def

lemmas index_eval = NewTrace_def index_chunks.simps index_words.simps index_word_def
  index_extents_def Let_def indexer0_def interval0_def write_cur_def wordAt_def

lemma replicate_2: "replicate 2 x = [x, x]"
  by (simp add: numeral_2_eq_2)

lemma NewTrace_trace_P0:
  "NewTrace trace_P0 = Inr \<lparr>r = trace_P0,
     blocks = [[], [\<lparr>iv_start = 0, iv_end = 24, iv_startTime = 12800, iv_endTime = 0\<rparr>]],
     minTraceTime = 12800, startTime = 12800, endTime = 12800,
     tr_minAddr = 0x10000, tr_maxAddr = 0x14000\<rparr>"
  by (simp add: index_eval codec_eval trace_P0_def word_sless_alt replicate_2)

text \<open>
  C9, amended: in every successfully indexed trace, every interval of every processor's
  block list has start and end offsets that are multiples of 8, with
  \<open>0 \<le> start\<close>, \<open>start \<le> end\<close> (even \<open>start + 8 \<le> end\<close>) and \<open>end\<close> at most the length of the
  trace; and the interval begins at its Pid word: the word at \<open>start\<close> is the Pid word
  that names the block list's processor, and the word after it, when the interval holds
  one, is the Sync.
\<close>

theorem C9_NewTrace_intervals:
  assumes "NewTrace rd = Inr t" and "i < length (blocks t)" and "iv \<in> set (blocks t ! i)"
  shows "0 \<le> iv_start iv \<and> iv_start iv mod 8 = 0 \<and> iv_end iv mod 8 = 0 \<and>
         iv_start iv \<le> iv_end iv \<and> iv_start iv + 8 \<le> iv_end iv \<and> iv_end iv \<le> int (length rd) \<and>
         kind (wordAt rd (iv_start iv)) = pid \<and>
         map_option pidIndex (header_pid (wordAt rd (iv_start iv))) = Some (int i) \<and>
         (iv_start iv + 16 \<le> iv_end iv \<longrightarrow> kind (wordAt rd (iv_start iv + 8)) = sync)"
  using NewTrace_closedIv [OF assms] by (simp add: closedIv_def pidAt_def)

theorem C9_NewTrace_intervals_witness:
  "NewTrace trace_P0 = Inr \<lparr>r = trace_P0,
     blocks = [[], [\<lparr>iv_start = 0, iv_end = 24, iv_startTime = 12800, iv_endTime = 0\<rparr>]],
     minTraceTime = 12800, startTime = 12800, endTime = 12800,
     tr_minAddr = 0x10000, tr_maxAddr = 0x14000\<rparr> \<and>
   kind (wordAt trace_P0 0) = pid \<and>
   map_option pidIndex (header_pid (wordAt trace_P0 0)) = Some 1 \<and>
   kind (wordAt trace_P0 8) = sync"
proof -
  let ?iv = "\<lparr>iv_start = 0, iv_end = 24, iv_startTime = 12800, iv_endTime = 0\<rparr>"
  let ?t = "\<lparr>r = trace_P0, blocks = [[], [?iv]],
     minTraceTime = 12800, startTime = 12800, endTime = 12800,
     tr_minAddr = 0x10000, tr_maxAddr = 0x14000\<rparr>"
  have nt: "NewTrace trace_P0 = Inr ?t"
    by (rule NewTrace_trace_P0)
  have i: "1 < length (blocks ?t)" and iv: "?iv \<in> set (blocks ?t ! 1)"
    by simp_all
  from C9_NewTrace_intervals [OF nt i iv] nt show ?thesis
    by simp
qed

text \<open>
  C9, as stated, fails in its last part: the interval does not begin after the Pid+Sync
  pair. For the trace \<open>Pid, Sync, Alloc\<close> the only interval starts at offset 0, where the
  Pid word is; the word following the Sync is at offset 16. (\<open>refreshEvent\<close> relies on
  this: it reads the Sync inside the interval to set the clock.)
\<close>

theorem C9_counterexample:
  "NewTrace trace_P0 = Inr \<lparr>r = trace_P0,
     blocks = [[], [\<lparr>iv_start = 0, iv_end = 24, iv_startTime = 12800, iv_endTime = 0\<rparr>]],
     minTraceTime = 12800, startTime = 12800, endTime = 12800,
     tr_minAddr = 0x10000, tr_maxAddr = 0x14000\<rparr> \<and>
   kind (wordAt trace_P0 0) = pid \<and> kind (wordAt trace_P0 8) = sync \<and>
   kind (wordAt trace_P0 16) = alloc \<and>
   iv_start \<lparr>iv_start = 0, iv_end = 24, iv_startTime = 12800, iv_endTime = 0\<rparr> \<noteq> 16"
  using NewTrace_trace_P0 by (simp add: wordAt_def trace_P0_def codec_eval alloc_def)

section \<open>The merge parser: the time window\<close>

lemma refreshEvent_frame:
  assumes "refreshEvent p i = (res, p')"
  shows "r (trace p') = r (trace p)" "minTraceTime (trace p') = minTraceTime (trace p)"
    "startTime (trace p') = startTime (trace p)" "endTime (trace p') = endTime (trace p)"
    "events p' = events p" "length (blocks (trace p')) = length (blocks (trace p))"
    "length (clocks p') = length (clocks p)"
  using assms
  by (auto simp: refreshEvent_def split: if_splits prod.splits option.splits)

lemma refreshEvent_times:
  assumes "refreshEvent p i = (res, p')"
  shows "TimeStart (trace p') = TimeStart (trace p)" "TimeEnd (trace p') = TimeEnd (trace p)"
  using refreshEvent_frame(2-4) [OF assms] by (simp_all add: TimeStart_def TimeEnd_def)

lemma init_events_times:
  "init_events is p = (err, p') \<Longrightarrow>
   TimeStart (trace p') = TimeStart (trace p) \<and> TimeEnd (trace p') = TimeEnd (trace p)"
proof (induction "is" arbitrary: p)
  case Nil
  then show ?case by simp
next
  case (Cons i "is")
  obtain e er p1 where rf: "refreshEvent p i = ((e, er), p1)"
    by (metis surj_pair)
  note t = refreshEvent_times [OF rf]
  show ?case
  proof (cases er)
    case None
    with Cons.prems rf have "init_events is (p1\<lparr>events := (events p1)[i := e]\<rparr>) = (err, p')"
      by simp
    from Cons.IH [OF this] t show ?thesis
      by simp
  next
    case (Some x)
    with Cons.prems rf have "p' = p1\<lparr>events := (events p1)[i := e]\<rparr>"
      by simp
    with t show ?thesis
      by simp
  qed
qed

lemma initialize_times:
  assumes "initialize p = (err, p')"
  shows "TimeStart (trace p') = TimeStart (trace p)" "TimeEnd (trace p') = TimeEnd (trace p)"
proof -
  have "TimeStart (trace p') = TimeStart (trace p) \<and> TimeEnd (trace p') = TimeEnd (trace p)"
  proof (cases "length (clocks p) = 0")
    case True
    with assms have "init_events [0..<length (blocks (trace p))]
          (p\<lparr>clocks := replicate (length (blocks (trace p))) 0,
             events := replicate (length (blocks (trace p))) event0\<rparr>) = (err, p')"
      by (simp add: initialize_def)
    from init_events_times [OF this] show ?thesis
      by simp
  next
    case False
    with assms show ?thesis
      by (simp add: initialize_def)
  qed
  then show "TimeStart (trace p') = TimeStart (trace p)" "TimeEnd (trace p') = TimeEnd (trace p)"
    by simp_all
qed

lemma Next_pass_Again_times:
  assumes "Next_pass p = Again p'"
  shows "TimeStart (trace p') = TimeStart (trace p)" "TimeEnd (trace p') = TimeEnd (trace p)"
proof -
  from assms obtain p0 ts i e p1 ev where
    ini: "initialize p = (None, p0)" and rf: "refreshEvent p0 i = ((ev, None), p1)"
    and p': "p' = p1\<lparr>events := (events p1)[i := ev]\<rparr>"
    by (auto simp: Next_pass_def Let_def split: prod.splits option.splits if_splits)
  show "TimeStart (trace p') = TimeStart (trace p)" "TimeEnd (trace p') = TimeEnd (trace p)"
    using initialize_times [OF ini] refreshEvent_times [OF rf] by (simp_all add: p')
qed

lemma Next_pass_Done_window:
  assumes "Next_pass p = Done (Inr e, p')"
  shows "TimeStart (trace p) \<le>s Time e \<and> Time e \<le>s TimeEnd (trace p)"
proof -
  from assms obtain p0 i ev p1 where
    ini: "initialize p = (None, p0)" and rf: "refreshEvent p0 i = ((ev, None), p1)"
    and a: "\<not> TimeEnd (trace p0) <s Time e"
    and b: "\<not> Time e <s TimeStart (trace (p1\<lparr>events := (events p1)[i := ev]\<rparr>))"
    by (auto simp: Next_pass_def Let_def split: prod.splits option.splits if_splits)
  show ?thesis
    using a b initialize_times [OF ini] refreshEvent_times [OF rf]
    by (simp add: word_sless_alt word_sle_eq)
qed

lemma Next_window_aux:
  assumes "Next p = Some res"
  shows "\<forall>e p'. res = (Inr e, p') \<longrightarrow>
    TimeStart (trace p) \<le>s Time e \<and> Time e \<le>s TimeEnd (trace p)"
proof (rule Next.raw_induct [where P = "\<lambda>p res. \<forall>e p'. res = (Inr e, p') \<longrightarrow>
    TimeStart (trace p) \<le>s Time e \<and> Time e \<le>s TimeEnd (trace p)", OF _ assms])
  fix nxt :: "Parser \<Rightarrow> ((perror + Event) \<times> Parser) option" and p res
  assume IH: "\<And>x y. nxt x = Some y \<Longrightarrow> \<forall>e p'. y = (Inr e, p') \<longrightarrow>
      TimeStart (trace x) \<le>s Time e \<and> Time e \<le>s TimeEnd (trace x)"
    and eq: "(case Next_pass p of Done res \<Rightarrow> Some res | Again p' \<Rightarrow> nxt p') = Some res"
  show "\<forall>e p'. res = (Inr e, p') \<longrightarrow>
      TimeStart (trace p) \<le>s Time e \<and> Time e \<le>s TimeEnd (trace p)"
  proof (cases "Next_pass p")
    case (Done x)
    with eq have "Next_pass p = Done res"
      by simp
    then show ?thesis
      using Next_pass_Done_window by blast
  next
    case (Again q)
    with eq have "nxt q = Some res"
      by simp
    from IH [OF this] Next_pass_Again_times [OF Again] show ?thesis
      by simp
  qed
qed

lemma Next_window:
  "Next p = Some (Inr e, p') \<Longrightarrow>
   TimeStart (trace p) \<le>s Time e \<and> Time e \<le>s TimeEnd (trace p)"
  using Next_window_aux by blast

text \<open>
  The time window in one pass of \<open>Next\<close>. Let the pass select the pending event \<open>ev\<close>
  (after the initialisation, if it is the first call). If the time of \<open>ev\<close> is strictly
  greater than \<open>TimeEnd\<close>, \<open>Next\<close> returns \<open>EndOfStream\<close> and \<open>ev\<close> stays pending. Otherwise,
  if the read-ahead for the processor of \<open>ev\<close> succeeds: when the time of \<open>ev\<close> is strictly
  less than \<open>TimeStart\<close>, \<open>ev\<close> is dropped and \<open>Next\<close> goes on with the following events;
  when it is in \<open>[TimeStart, TimeEnd]\<close>, both bounds included, \<open>Next\<close> returns \<open>ev\<close>. And
  whatever event \<open>Next\<close> returns has its time in \<open>[TimeStart, TimeEnd]\<close>.
\<close>

lemma Next_pass_window:
  assumes "initialize p = (None, p0)"
    and "selectMin (clocks p0) (events p0) 0 (MaxInt64, 0, event0) = Some (ts, i, e)"
    and "ts \<noteq> MaxInt64"
    and "makeEvent e (pidFromIndex (int i)) ts (minTraceTime (trace p0)) = Some ev"
  shows "(TimeEnd (trace p) <s Time ev \<longrightarrow> Next p = Some (Inl EndOfStream, p0)) \<and>
    (\<forall>e' p1. refreshEvent p0 i = ((e', None), p1) \<longrightarrow>
       (Time ev <s TimeStart (trace p) \<and> Time ev \<le>s TimeEnd (trace p) \<longrightarrow>
          Next p = Next (p1\<lparr>events := (events p1)[i := e']\<rparr>)) \<and>
       (TimeStart (trace p) \<le>s Time ev \<and> Time ev \<le>s TimeEnd (trace p) \<longrightarrow>
          Next p = Some (Inr ev, p1\<lparr>events := (events p1)[i := e']\<rparr>))) \<and>
    (\<forall>ev' p'. Next p = Some (Inr ev', p') \<longrightarrow>
       TimeStart (trace p) \<le>s Time ev' \<and> Time ev' \<le>s TimeEnd (trace p))"
proof (intro conjI allI impI)
  note t0 = initialize_times [OF assms(1)]
  show "Next p = Some (Inl EndOfStream, p0)" if "TimeEnd (trace p) <s Time ev"
    using that assms t0 by (subst Next.simps) (simp add: Next_pass_def)
  show "Next p = Next (p1\<lparr>events := (events p1)[i := e']\<rparr>)"
    if "refreshEvent p0 i = ((e', None), p1)"
      "Time ev <s TimeStart (trace p) \<and> Time ev \<le>s TimeEnd (trace p)" for e' p1
    using that assms t0 refreshEvent_times [OF that(1)]
    by (subst Next.simps) (simp add: Next_pass_def word_sless_alt word_sle_eq)
  show "Next p = Some (Inr ev, p1\<lparr>events := (events p1)[i := e']\<rparr>)"
    if "refreshEvent p0 i = ((e', None), p1)"
      "TimeStart (trace p) \<le>s Time ev \<and> Time ev \<le>s TimeEnd (trace p)" for e' p1
    using that assms t0 refreshEvent_times [OF that(1)]
    by (subst Next.simps) (simp add: Next_pass_def word_sless_alt word_sle_eq)
  show "TimeStart (trace p) \<le>s Time ev'" if "Next p = Some (Inr ev', p')" for ev' p'
    using Next_window [OF that] by simp
  show "Time ev' \<le>s TimeEnd (trace p)" if "Next p = Some (Inr ev', p')" for ev' p'
    using Next_window [OF that] by simp
qed

lemmas parser_eval = initialize_def refreshEvent_def refresh_blocks.simps read8_blocks_def
  ReadAt8_def NewParser_def Trace_Clone_def makeEvent_def MaxInt64_def event0_def
  pidFromIndex_def TimeStart_def TimeEnd_def Let_def replicate_2

lemma initialize_P0: "initialize (NewParser Trace_P0) = (None, Parser_P0)"
  by (simp add: parser_eval codec_eval Trace_P0_def Parser_P0_def trace_P0_def)

lemma selectMin_P0:
  "selectMin (clocks Parser_P0) (events Parser_P0) 0 (MaxInt64, 0, event0) =
     Some (12800, 1, \<lparr>eventHeader = 0x10011, npages = 2\<rparr>)"
  by (simp add: parser_eval codec_eval Parser_P0_def word_sless_alt)

text \<open>
  On the trace \<open>trace_P0\<close> the one event has time 0, which is both \<open>TimeStart\<close> and
  \<open>TimeEnd\<close>, and the first call of \<open>Next\<close> returns it.
\<close>

lemma Next_pass_window_P0:
  "Next (NewParser Trace_P0) =
     Some (Inr \<lparr>Kind = EventAllocate, P = 0, Time = 0, Base = 0x10000, Size = 0x4000\<rparr>,
           Parser_P0\<lparr>events := [event0, event0]\<rparr>) \<and>
   TimeStart Trace_P0 = 0 \<and> TimeEnd Trace_P0 = 0"
  using Next_pass_window [of "NewParser Trace_P0" Parser_P0 12800 1
      "\<lparr>eventHeader = 0x10011, npages = 2\<rparr>"
      "\<lparr>Kind = EventAllocate, P = 0, Time = 0, Base = 0x10000, Size = 0x4000\<rparr>"]
    initialize_P0 selectMin_P0
  apply (simp add: parser_eval codec_eval EventAllocate_def)
  apply (simp add: parser_eval codec_eval Trace_P0_def Parser_P0_def trace_P0_def)
  done

section \<open>The merge parser: order and alignment of the events\<close>

lemma read8_blocks_error:
  assumes "read8_blocks rd bl = ((n, Some x), bl')"
  shows "bl' = bl" "failing rd i bl c"
proof -
  from assms show bl: "bl' = bl"
    by (auto simp: read8_blocks_def Let_def split: list.splits option.splits if_splits)
  from assms bl show "failing rd i bl c"
    unfolding failing_def by (subst refresh_blocks.simps) simp
qed

lemma refresh_blocks_props:
  "refresh_blocks rd i bl clk = ((e, err), bl', clk') \<Longrightarrow>
   (clk \<noteq> None \<longrightarrow> clk' \<noteq> None) \<and>
   (err \<noteq> None \<longrightarrow> eventHeader e = 0 \<or> timestampDelta (eventHeader e) = None \<or>
      (\<forall>c. failing rd i bl' c))"
proof (induction rd i bl clk rule: refresh_blocks.induct)
  case (1 rd pidx bl clk)
  obtain u er bl1 where r1: "read8_blocks rd bl = ((u, er), bl1)"
    by (metis surj_pair)
  obtain n er2 bl2 where r2: "read8_blocks rd bl1 = ((n, er2), bl2)"
    by (metis surj_pair)
  have f2: "er2 \<noteq> None \<longrightarrow> bl2 = bl1 \<and> (\<forall>c. failing rd pidx bl1 c)"
  proof (cases er2)
    case None
    then show ?thesis
      by simp
  next
    case (Some x)
    with r2 have "read8_blocks rd bl1 = ((n, Some x), bl2)"
      by simp
    from read8_blocks_error [OF this] show ?thesis
      by simp
  qed
  have lg: "kind u \<noteq> sync \<longrightarrow> kind u \<noteq> pid \<longrightarrow> large u \<noteq> None"
    by (simp add: large_def)
  have np: "large u = Some False \<longrightarrow> kind u \<noteq> sync \<longrightarrow> kind u \<noteq> pid \<longrightarrow> npagesSmall u \<noteq> None"
    by (simp add: npagesSmall_def)
  show ?case
  proof (cases "er = None \<and> u \<noteq> 0 \<and> (kind u = sync \<or> kind u = pid)")
    case False
    with "1.prems" r1 r2 f2 lg np show ?thesis
      by (subst (asm) refresh_blocks.simps)
        (auto simp: event0_def timestampDelta_def split: option.splits if_splits bool.splits)
  next
    case True
    then have er: "er = None" and u: "u \<noteq> 0"
      by simp_all
    show ?thesis
    proof (cases "kind u = sync")
      case True
      show ?thesis
      proof (cases "timestamp u = None \<or> clk = None")
        case True
        with "1.prems" r1 er u \<open>kind u = sync\<close> show ?thesis
          by (subst (asm) refresh_blocks.simps)
            (auto simp: timestampDelta_def split: option.splits)
      next
        case False
        then obtain t c where t: "timestamp u = Some t" "clk = Some c"
          by auto
        with "1.prems" r1 er u \<open>kind u = sync\<close>
        have "refresh_blocks rd pidx bl1 (Some t) = ((e, err), bl', clk')"
          by (subst (asm) refresh_blocks.simps) simp
        from "1.IH"(1) [OF r1 [symmetric] refl _ u \<open>kind u = sync\<close> refl t(1) t(2) this] er
        show ?thesis
          by auto
      qed
    next
      case False
      with True have k: "kind u = pid"
        by simp
      show ?thesis
      proof (cases "\<exists>p. header_pid u = Some p \<and> pidIndex p = int pidx")
        case False
        with "1.prems" r1 er u k \<open>kind u \<noteq> sync\<close> show ?thesis
          by (subst (asm) refresh_blocks.simps)
            (auto simp: timestampDelta_def split: option.splits if_splits)
      next
        case True
        then obtain p where p: "header_pid u = Some p" "pidIndex p = int pidx"
          by auto
        with "1.prems" r1 er u k \<open>kind u \<noteq> sync\<close>
        have "refresh_blocks rd pidx bl1 clk = ((e, err), bl', clk')"
          by (subst (asm) refresh_blocks.simps) simp
        from "1.IH"(2) [OF r1 [symmetric] refl _ u \<open>kind u \<noteq> sync\<close> k p(1) _ this] er p(2)
        show ?thesis
          by auto
      qed
    qed
  qed
qed

lemma selectMin_spec:
  "selectMin cl es k (m0, j0, e0) = Some (m, j, e) \<Longrightarrow>
   m \<le>s m0 \<and>
   (\<forall>idx<length es. eventHeader (es ! idx) \<noteq> 0 \<longrightarrow> k + idx < length cl \<and>
      (\<exists>d. timestampDelta (eventHeader (es ! idx)) = Some d \<and> m \<le>s cl ! (k + idx) + d)) \<and>
   ((m, j, e) = (m0, j0, e0) \<or>
    (\<exists>idx<length es. j = k + idx \<and> e = es ! idx \<and> eventHeader e \<noteq> 0 \<and>
       (\<exists>d. timestampDelta (eventHeader e) = Some d \<and> m = cl ! j + d)))"
proof (induction es arbitrary: k m0 j0 e0)
  case Nil
  then show ?case
    by simp
next
  case (Cons e1 es)
  let ?Q = "\<lambda>m0 j0 e0. m \<le>s m0 \<and>
   (\<forall>idx<length es. eventHeader (es ! idx) \<noteq> 0 \<longrightarrow> Suc k + idx < length cl \<and>
      (\<exists>d. timestampDelta (eventHeader (es ! idx)) = Some d \<and> m \<le>s cl ! (Suc k + idx) + d)) \<and>
   ((m, j, e) = (m0, j0, e0) \<or>
    (\<exists>idx<length es. j = Suc k + idx \<and> e = es ! idx \<and> eventHeader e \<noteq> 0 \<and>
       (\<exists>d. timestampDelta (eventHeader e) = Some d \<and> m = cl ! j + d)))"
  have shift: "\<exists>idx<length (e1 # es). j = k + idx \<and> e = (e1 # es) ! idx \<and> eventHeader e \<noteq> 0 \<and>
       (\<exists>d. timestampDelta (eventHeader e) = Some d \<and> m = cl ! j + d)"
    if "\<exists>idx<length es. j = Suc k + idx \<and> e = es ! idx \<and> eventHeader e \<noteq> 0 \<and>
       (\<exists>d. timestampDelta (eventHeader e) = Some d \<and> m = cl ! j + d)"
  proof -
    from that obtain idx where "idx < length es" "j = Suc k + idx" "e = es ! idx"
      "eventHeader e \<noteq> 0" "\<exists>d. timestampDelta (eventHeader e) = Some d \<and> m = cl ! j + d"
      by blast
    then have "Suc idx < length (e1 # es) \<and> j = k + Suc idx \<and> e = (e1 # es) ! Suc idx \<and>
        eventHeader e \<noteq> 0 \<and> (\<exists>d. timestampDelta (eventHeader e) = Some d \<and> m = cl ! j + d)"
      by simp
    then show ?thesis
      by blast
  qed
  have all: "\<forall>idx<length (e1 # es). eventHeader ((e1 # es) ! idx) \<noteq> 0 \<longrightarrow> k + idx < length cl \<and>
      (\<exists>d. timestampDelta (eventHeader ((e1 # es) ! idx)) = Some d \<and> m \<le>s cl ! (k + idx) + d)"
    if tl: "\<forall>idx<length es. eventHeader (es ! idx) \<noteq> 0 \<longrightarrow> Suc k + idx < length cl \<and>
      (\<exists>d. timestampDelta (eventHeader (es ! idx)) = Some d \<and> m \<le>s cl ! (Suc k + idx) + d)"
      and hd: "eventHeader e1 \<noteq> 0 \<longrightarrow> k < length cl \<and>
      (\<exists>d. timestampDelta (eventHeader e1) = Some d \<and> m \<le>s cl ! k + d)"
  proof (intro allI impI)
    fix idx
    assume a: "idx < length (e1 # es)" "eventHeader ((e1 # es) ! idx) \<noteq> 0"
    show "k + idx < length cl \<and>
      (\<exists>d. timestampDelta (eventHeader ((e1 # es) ! idx)) = Some d \<and> m \<le>s cl ! (k + idx) + d)"
    proof (cases idx)
      case 0
      with a hd show ?thesis
        by simp
    next
      case (Suc i')
      with a tl show ?thesis
        by simp
    qed
  qed
  show ?case
  proof (cases "eventHeader e1 = 0")
    case True
    with Cons.prems have "selectMin cl es (Suc k) (m0, j0, e0) = Some (m, j, e)"
      by simp
    from Cons.IH [OF this] have q: "?Q m0 j0 e0" .
    with True all [of ] shift show ?thesis
      by blast
  next
    case False
    with Cons.prems obtain d where k: "k < length cl" and d: "timestampDelta (eventHeader e1) = Some d"
      by (auto split: if_splits option.splits)
    show ?thesis
    proof (cases "cl ! k + d <s m0")
      case True
      with Cons.prems False k d have "selectMin cl es (Suc k) (cl ! k + d, k, e1) = Some (m, j, e)"
        by simp
      from Cons.IH [OF this] have q: "?Q (cl ! k + d) k e1" .
      then have le: "m \<le>s cl ! k + d"
        by simp
      with True have m0: "m \<le>s m0"
        by (simp add: word_sle_eq word_sless_alt)
      have hd: "eventHeader e1 \<noteq> 0 \<longrightarrow> k < length cl \<and>
          (\<exists>d. timestampDelta (eventHeader e1) = Some d \<and> m \<le>s cl ! k + d)"
        using k d le by simp
      have at: "(\<exists>idx<length (e1 # es). j = k + idx \<and> e = (e1 # es) ! idx \<and> eventHeader e \<noteq> 0 \<and>
         (\<exists>d. timestampDelta (eventHeader e) = Some d \<and> m = cl ! j + d))"
      proof (cases "(m, j, e) = (cl ! k + d, k, e1)")
        case True
        then have "0 < length (e1 # es) \<and> j = k + 0 \<and> e = (e1 # es) ! 0 \<and> eventHeader e \<noteq> 0 \<and>
         (\<exists>d. timestampDelta (eventHeader e) = Some d \<and> m = cl ! j + d)"
          using False d by simp
        then show ?thesis
          by blast
      next
        case False
        with q shift show ?thesis
          by blast
      qed
      from q have tl: "\<forall>idx<length es. eventHeader (es ! idx) \<noteq> 0 \<longrightarrow> Suc k + idx < length cl \<and>
        (\<exists>d. timestampDelta (eventHeader (es ! idx)) = Some d \<and> m \<le>s cl ! (Suc k + idx) + d)"
        by blast
      from m0 all [OF tl hd] at show ?thesis
        by blast
    next
      case nl: False
      with Cons.prems False k d have "selectMin cl es (Suc k) (m0, j0, e0) = Some (m, j, e)"
        by simp
      from Cons.IH [OF this] have q: "?Q m0 j0 e0" .
      then have "m \<le>s m0"
        by simp
      with nl have le: "m \<le>s cl ! k + d"
        by (simp add: word_sle_eq word_sless_alt)
      have hd: "eventHeader e1 \<noteq> 0 \<longrightarrow> k < length cl \<and>
          (\<exists>d. timestampDelta (eventHeader e1) = Some d \<and> m \<le>s cl ! k + d)"
        using k d le by simp
      from q have tl: "\<forall>idx<length es. eventHeader (es ! idx) \<noteq> 0 \<longrightarrow> Suc k + idx < length cl \<and>
        (\<exists>d. timestampDelta (eventHeader (es ! idx)) = Some d \<and> m \<le>s cl ! (Suc k + idx) + d)"
        by blast
      from q all [OF tl hd] shift show ?thesis
        by blast
    qed
  qed
qed

lemma selectMin_Next:
  assumes "selectMin cl es 0 (MaxInt64, 0, event0) = Some (ts, i, e)" and "ts \<noteq> MaxInt64"
  shows "i < length es" "e = es ! i" "eventHeader e \<noteq> 0"
    "\<exists>d. timestampDelta (eventHeader e) = Some d \<and> ts = cl ! i + d"
    "\<forall>j<length es. eventHeader (es ! j) \<noteq> 0 \<longrightarrow> j < length cl \<and>
       (\<exists>d. timestampDelta (eventHeader (es ! j)) = Some d \<and> ts \<le>s cl ! j + d)"
proof -
  note s = selectMin_spec [OF assms(1)]
  from s assms(2) have "\<exists>idx<length es. i = 0 + idx \<and> e = es ! idx \<and> eventHeader e \<noteq> 0 \<and>
       (\<exists>d. timestampDelta (eventHeader e) = Some d \<and> ts = cl ! i + d)"
    by blast
  then show "i < length es" "e = es ! i" "eventHeader e \<noteq> 0"
    "\<exists>d. timestampDelta (eventHeader e) = Some d \<and> ts = cl ! i + d"
    by auto
  from s show "\<forall>j<length es. eventHeader (es ! j) \<noteq> 0 \<longrightarrow> j < length cl \<and>
       (\<exists>d. timestampDelta (eventHeader (es ! j)) = Some d \<and> ts \<le>s cl ! j + d)"
    by simp
qed

lemma refreshEvent_slot:
  assumes "i < length (blocks (trace p))" and "i < length (clocks p)"
    and "refreshEvent p i = ((e, err), p')"
  shows "\<exists>bl' c'. refresh_blocks (r (trace p)) i (blocks (trace p) ! i) (Some (clocks p ! i)) =
           ((e, err), bl', Some c') \<and>
         blocks (trace p') = (blocks (trace p))[i := bl'] \<and> clocks p' = (clocks p)[i := c']"
proof -
  obtain e1 er1 bl' clk' where rb:
    "refresh_blocks (r (trace p)) i (blocks (trace p) ! i) (Some (clocks p ! i)) = ((e1, er1), bl', clk')"
    by (metis surj_pair)
  from refresh_blocks_props [OF rb] obtain c' where c': "clk' = Some c'"
    by auto
  from assms rb c' show ?thesis
    by (auto simp: refreshEvent_def)
qed

lemma slot_after_refresh:
  assumes rb: "refresh_blocks rd i bl (Some c) = ((e', err), bl', Some c')"
    and st: "\<not> failing rd i bl c \<longrightarrow> stream_sorted rd i bl (Some c) ts"
  shows "slot_ok rd ts i e' c' bl'"
proof (cases err)
  case (Some x)
  with refresh_blocks_props [OF rb] show ?thesis
    by (auto simp: slot_ok_def split: option.splits)
next
  case None
  with rb have "\<not> failing rd i bl c"
    by (simp add: failing_def)
  with st have "stream_sorted rd i bl (Some c) ts"
    by simp
  with rb None show ?thesis
    by (subst (asm) stream_sorted.simps) (auto simp: slot_ok_def split: option.splits)
qed

lemma slot_ok_mono:
  assumes "slot_ok rd lb i e c bl"
    and "\<forall>d. eventHeader e \<noteq> 0 \<longrightarrow> timestampDelta (eventHeader e) = Some d \<longrightarrow> lb' \<le>s c + d"
  shows "slot_ok rd lb' i e c bl"
  using assms by (auto simp: slot_ok_def split: option.splits)

lemma refresh_selected:
  assumes inv: "parser_inv t lb p0"
    and sel: "selectMin (clocks p0) (events p0) 0 (MaxInt64, 0, event0) = Some (ts, i, e0)"
    and ts: "ts \<noteq> MaxInt64"
    and rf: "refreshEvent p0 i = ((e', er), p1)"
  shows "er = None \<longrightarrow> lb \<le>s ts \<and> parser_inv t ts (p1\<lparr>events := (events p1)[i := e']\<rparr>)"
    and "er \<noteq> None \<longrightarrow> parser_inv t lb (p1\<lparr>events := (events p1)[i := e']\<rparr>)"
proof -
  note s = selectMin_Next [OF sel ts]
  from inv have len: "length (clocks p0) = length (blocks t)" "length (events p0) = length (blocks t)"
    "length (blocks (trace p0)) = length (blocks t)"
    and rd: "r (trace p0) = r t"
    and slots: "\<forall>j<length (blocks t).
         slot_ok (r t) lb j (events p0 ! j) (clocks p0 ! j) (blocks (trace p0) ! j)"
    by (simp_all add: parser_inv_def)
  from s(1) len have i: "i < length (blocks t)"
    by simp
  from s(4) obtain d where d: "timestampDelta (eventHeader e0) = Some d" "ts = clocks p0 ! i + d"
    by blast
  from refreshEvent_slot [OF _ _ rf] i len obtain bl' c' where
    rb: "refresh_blocks (r t) i (blocks (trace p0) ! i) (Some (clocks p0 ! i)) = ((e', er), bl', Some c')"
    and bl: "blocks (trace p1) = (blocks (trace p0))[i := bl']"
    and cl: "clocks p1 = (clocks p0)[i := c']"
    by (auto simp: rd)
  note fr = refreshEvent_frame [OF rf]
  let ?p2 = "p1\<lparr>events := (events p1)[i := e']\<rparr>"
  have base: "length (clocks ?p2) = length (blocks t) \<and> length (events ?p2) = length (blocks t) \<and>
      length (blocks (trace ?p2)) = length (blocks t) \<and> r (trace ?p2) = r t \<and>
      minTraceTime (trace ?p2) = minTraceTime t \<and> startTime (trace ?p2) = startTime t \<and>
      endTime (trace ?p2) = endTime t"
    using inv fr by (simp add: parser_inv_def)
  from slots i s(2,3) d have sl: "failing (r t) i (blocks (trace p0) ! i) (clocks p0 ! i) \<or>
      (lb \<le>s ts \<and> stream_sorted (r t) i (blocks (trace p0) ! i) (Some (clocks p0 ! i)) ts)"
    by (auto simp: slot_ok_def)
  have other: "slot_ok (r t) lb' j (events ?p2 ! j) (clocks ?p2 ! j) (blocks (trace ?p2) ! j)"
    if "j < length (blocks t)" "j \<noteq> i" "lb' = lb \<or> lb' = ts" for j lb'
  proof -
    from that have eq: "events ?p2 ! j = events p0 ! j" "clocks ?p2 ! j = clocks p0 ! j"
      "blocks (trace ?p2) ! j = blocks (trace p0) ! j"
      using fr(5) bl cl by simp_all
    from slots that(1) have a: "slot_ok (r t) lb j (events p0 ! j) (clocks p0 ! j) (blocks (trace p0) ! j)"
      by simp
    have "slot_ok (r t) lb' j (events p0 ! j) (clocks p0 ! j) (blocks (trace p0) ! j)"
    proof (cases "lb' = lb")
      case True
      with a show ?thesis
        by simp
    next
      case False
      with that(3) have "lb' = ts"
        by simp
      moreover have "\<forall>d. eventHeader (events p0 ! j) \<noteq> 0 \<longrightarrow>
          timestampDelta (eventHeader (events p0 ! j)) = Some d \<longrightarrow> ts \<le>s clocks p0 ! j + d"
        using s(5) that(1) len by auto
      ultimately show ?thesis
        using slot_ok_mono [OF a] by simp
    qed
    with eq show ?thesis
      by simp
  qed
  have sel_eq: "events ?p2 ! i = e'" "clocks ?p2 ! i = c'" "blocks (trace ?p2) ! i = bl'"
    using i len fr bl cl by simp_all
  show "er = None \<longrightarrow> lb \<le>s ts \<and> parser_inv t ts ?p2"
  proof
    assume er: "er = None"
    with rb have nf: "\<not> failing (r t) i (blocks (trace p0) ! i) (clocks p0 ! i)"
      by (simp add: failing_def)
    with sl have lb: "lb \<le>s ts"
      and st: "stream_sorted (r t) i (blocks (trace p0) ! i) (Some (clocks p0 ! i)) ts"
      by simp_all
    from st have "\<not> failing (r t) i (blocks (trace p0) ! i) (clocks p0 ! i) \<longrightarrow>
        stream_sorted (r t) i (blocks (trace p0) ! i) (Some (clocks p0 ! i)) ts"
      by simp
    with rb have "slot_ok (r t) ts i e' c' bl'"
      by (rule slot_after_refresh)
    with other sel_eq have "\<forall>j<length (blocks t).
        slot_ok (r t) ts j (events ?p2 ! j) (clocks ?p2 ! j) (blocks (trace ?p2) ! j)"
      by metis
    with base lb show "lb \<le>s ts \<and> parser_inv t ts ?p2"
      unfolding parser_inv_def by blast
  qed
  show "er \<noteq> None \<longrightarrow> parser_inv t lb ?p2"
  proof
    assume er: "er \<noteq> None"
    with rb have f: "failing (r t) i (blocks (trace p0) ! i) (clocks p0 ! i)"
      by (simp add: failing_def)
    then have "\<not> failing (r t) i (blocks (trace p0) ! i) (clocks p0 ! i) \<longrightarrow>
        stream_sorted (r t) i (blocks (trace p0) ! i) (Some (clocks p0 ! i)) lb"
      by simp
    with rb have "slot_ok (r t) lb i e' c' bl'"
      by (rule slot_after_refresh)
    with other sel_eq have "\<forall>j<length (blocks t).
        slot_ok (r t) lb j (events ?p2 ! j) (clocks ?p2 ! j) (blocks (trace ?p2) ! j)"
      by metis
    with base show "parser_inv t lb ?p2"
      unfolding parser_inv_def by blast
  qed
qed

lemma stb_cases:
  fixes k :: int
  assumes "- (2 ^ 64) < k" and "k < 2 ^ 64"
  shows "signed_take_bit 63 k =
    (if k < - (2 ^ 63) then k + 2 ^ 64 else if 2 ^ 63 \<le> k then k - 2 ^ 64 else k)"
proof -
  have e: "signed_take_bit 63 k = (k + 2 ^ 63) mod 2 ^ 64 - 2 ^ 63"
    by (simp add: signed_take_bit_eq_take_bit_shift take_bit_eq_mod)
  show ?thesis
  proof (cases "k < - (2 ^ 63)")
    case True
    have "(k + 2 ^ 63) mod 2 ^ 64 = (k + 2 ^ 63 + 2 ^ 64) mod 2 ^ 64"
      by (simp only: mod_add_self2)
    also have "\<dots> = k + 2 ^ 63 + 2 ^ 64"
      using True assms by (intro mod_pos_pos_trivial) simp_all
    finally show ?thesis
      using True by (simp add: e)
  next
    case False
    show ?thesis
    proof (cases "2 ^ 63 \<le> k")
      case True
      have "(k + 2 ^ 63) mod 2 ^ 64 = (k + 2 ^ 63 - 2 ^ 64) mod 2 ^ 64"
        by (metis minus_mod_self2)
      also have "\<dots> = k + 2 ^ 63 - 2 ^ 64"
        using True assms by (intro mod_pos_pos_trivial) simp_all
      finally show ?thesis
        using True False by (simp add: e)
    next
      case nb: False
      have "(k + 2 ^ 63) mod 2 ^ 64 = k + 2 ^ 63"
        using nb False by (intro mod_pos_pos_trivial) simp_all
      then show ?thesis
        using nb False by (simp add: e)
    qed
  qed
qed

lemma sint64_range:
  fixes w :: "64 word"
  shows "- (2 ^ 63) \<le> sint w" "sint w < 2 ^ 63"
  using sint_ge [of w] sint_lt [of w] by simp_all

lemma sint_diff64:
  fixes a b :: "64 word"
  shows "sint (a - b) = (if sint a - sint b < - (2 ^ 63) then sint a - sint b + 2 ^ 64
     else if 2 ^ 63 \<le> sint a - sint b then sint a - sint b - 2 ^ 64 else sint a - sint b)"
proof -
  have "sint (a - b) = signed_take_bit 63 (sint a - sint b)"
    by (simp add: sint_word_ariths)
  also have "\<dots> = (if sint a - sint b < - (2 ^ 63) then sint a - sint b + 2 ^ 64
     else if 2 ^ 63 \<le> sint a - sint b then sint a - sint b - 2 ^ 64 else sint a - sint b)"
    using sint64_range [of a] sint64_range [of b] by (intro stb_cases) simp_all
  finally show ?thesis .
qed

lemma window_order:
  fixes S E M T1 T2 :: "64 word"
  assumes "S \<le>s E" and "S - M \<le>s T1 - M" and "T1 - M \<le>s E - M"
    and "S - M \<le>s T2 - M" and "T2 - M \<le>s E - M" and "T1 \<le>s T2"
  shows "T1 - M \<le>s T2 - M"
  using assms sint64_range [of S] sint64_range [of E] sint64_range [of M]
    sint64_range [of T1] sint64_range [of T2]
  unfolding word_sle_eq sint_diff64 [of S M] sint_diff64 [of E M] sint_diff64 [of T1 M]
    sint_diff64 [of T2 M]
  by (simp split: if_splits)

lemma base_aligned:
  assumes "base h = Some b"
  shows "b mod pageSize = 0"
proof -
  from assms have b: "b = (h AND 0xFFFFFFFFFFFF) AND - 8192"
    by (simp add: base_def pageSize_8192 heapAddrBits_def and.commute and.left_commute
        split: if_splits)
  have "unat b mod 8192 = 0"
    unfolding b unat_and_not_8191 by simp
  then show ?thesis
    by (simp add: aligned_iff)
qed

lemma size_aligned: "(pageSize * n) mod pageSize = 0"
proof -
  have "unat (pageSize * n) = (8192 * unat n) mod 2 ^ 64"
    by (simp add: unat_word_ariths pageSize_8192)
  moreover have "(8192 * unat n) mod 2 ^ 64 mod 8192 = (8192 * unat n) mod 8192"
    by (rule mod_mod_cancel) simp
  ultimately have "unat (pageSize * n) mod 8192 = 0"
    by simp
  then show ?thesis
    by (simp add: aligned_iff)
qed

lemma makeEvent_fields:
  assumes "makeEvent e pn ts m = Some ev"
  shows "Time ev + m = ts" "Base ev mod pageSize = 0" "Size ev mod pageSize = 0"
proof -
  from assms obtain b where b: "base (eventHeader e) = Some b"
    and ev: "ev = \<lparr>Kind = kindNoLarge (eventHeader e), P = pn, Time = ts - m, Base = b,
                   Size = pageSize * npages e\<rparr>"
    by (auto simp: makeEvent_def split: if_splits option.splits)
  show "Time ev + m = ts"
    by (simp add: ev)
  show "Base ev mod pageSize = 0"
    using base_aligned [OF b] by (simp add: ev)
  show "Size ev mod pageSize = 0"
    using size_aligned by (simp add: ev)
qed

lemma Next_pass_inv:
  assumes inv: "parser_inv t lb p0" and ini: "initialize p = (None, p0)"
  shows "Next_pass p = Again p' \<longrightarrow> (\<exists>lb'. lb \<le>s lb' \<and> parser_inv t lb' p')"
    and "Next_pass p = Done (Inr e, p') \<longrightarrow>
      lb \<le>s Time e + minTraceTime t \<and> parser_inv t (Time e + minTraceTime t) p' \<and>
      Base e mod pageSize = 0 \<and> Size e mod pageSize = 0 \<and>
      TimeStart t \<le>s Time e \<and> Time e \<le>s TimeEnd t"
    and "Next_pass p = Done (Inl err, p') \<longrightarrow> err \<noteq> Panic \<longrightarrow> parser_inv t lb p'"
proof -
  let ?A = "Next_pass p = Again p' \<longrightarrow> (\<exists>lb'. lb \<le>s lb' \<and> parser_inv t lb' p')"
  let ?B = "Next_pass p = Done (Inr e, p') \<longrightarrow>
      lb \<le>s Time e + minTraceTime t \<and> parser_inv t (Time e + minTraceTime t) p' \<and>
      Base e mod pageSize = 0 \<and> Size e mod pageSize = 0 \<and>
      TimeStart t \<le>s Time e \<and> Time e \<le>s TimeEnd t"
  let ?C = "Next_pass p = Done (Inl err, p') \<longrightarrow> err \<noteq> Panic \<longrightarrow> parser_inv t lb p'"
  from inv have tm: "minTraceTime (trace p0) = minTraceTime t"
    "TimeStart (trace p0) = TimeStart t" "TimeEnd (trace p0) = TimeEnd t"
    by (simp_all add: parser_inv_def TimeStart_def TimeEnd_def)
  have "?A \<and> ?B \<and> ?C"
  proof (cases "selectMin (clocks p0) (events p0) 0 (MaxInt64, 0, event0)")
    case None
    with ini have "Next_pass p = Done (Inl Panic, p0)"
      by (simp add: Next_pass_def)
    then show ?thesis
      by simp
  next
    case (Some x)
    then obtain ts i e0 where sel:
      "selectMin (clocks p0) (events p0) 0 (MaxInt64, 0, event0) = Some (ts, i, e0)"
      by (cases x) auto
    show ?thesis
    proof (cases "ts = MaxInt64")
      case True
      with ini sel have "Next_pass p = Done (Inl EndOfStream, p0)"
        by (simp add: Next_pass_def)
      with inv show ?thesis
        by auto
    next
      case ts: False
      show ?thesis
      proof (cases "makeEvent e0 (pidFromIndex (int i)) ts (minTraceTime (trace p0))")
        case None
        with ini sel ts have "Next_pass p = Done (Inl Panic, p0)"
          by (simp add: Next_pass_def)
        then show ?thesis
          by simp
      next
        case (Some ev)
        note mk = makeEvent_fields [OF Some]
        show ?thesis
        proof (cases "TimeEnd (trace p0) <s Time ev")
          case True
          with ini sel ts Some have "Next_pass p = Done (Inl EndOfStream, p0)"
            by (simp add: Next_pass_def)
          with inv show ?thesis
            by auto
        next
          case te: False
          obtain e' er p1 where rf: "refreshEvent p0 i = ((e', er), p1)"
            by (metis surj_pair)
          let ?p2 = "p1\<lparr>events := (events p1)[i := e']\<rparr>"
          note rs = refresh_selected [OF inv sel ts rf]
          note t2 = refreshEvent_times [OF rf]
          show ?thesis
          proof (cases er)
            case (Some x)
            with ini sel ts \<open>makeEvent e0 (pidFromIndex (int i)) ts (minTraceTime (trace p0)) = Some ev\<close>
              te rf
            have "Next_pass p = Done (Inl x, ?p2)"
              by (simp add: Next_pass_def)
            with rs(2) Some show ?thesis
              by auto
          next
            case None
            with rs(1) have lb: "lb \<le>s ts" and inv2: "parser_inv t ts ?p2"
              by simp_all
            show ?thesis
            proof (cases "Time ev <s TimeStart (trace p0)")
              case True
              with ini sel ts \<open>makeEvent e0 (pidFromIndex (int i)) ts (minTraceTime (trace p0)) = Some ev\<close>
                te rf None t2
              have "Next_pass p = Again ?p2"
                by (simp add: Next_pass_def)
              with lb inv2 show ?thesis
                by auto
            next
              case False
              with ini sel ts \<open>makeEvent e0 (pidFromIndex (int i)) ts (minTraceTime (trace p0)) = Some ev\<close>
                te rf None t2
              have np: "Next_pass p = Done (Inr ev, ?p2)"
                by (simp add: Next_pass_def)
              have w: "TimeStart t \<le>s Time ev \<and> Time ev \<le>s TimeEnd t"
                using False te tm by (simp add: word_sle_eq word_sless_alt)
              have b: "lb \<le>s Time ev + minTraceTime t \<and>
                  parser_inv t (Time ev + minTraceTime t) ?p2 \<and>
                  Base ev mod pageSize = 0 \<and> Size ev mod pageSize = 0 \<and>
                  TimeStart t \<le>s Time ev \<and> Time ev \<le>s TimeEnd t"
                using lb inv2 mk tm w by simp
              show ?thesis
              proof (intro conjI)
                show ?A
                  using np by simp
                show ?C
                  using np by simp
                show ?B
                proof
                  assume "Next_pass p = Done (Inr e, p')"
                  with np have "e = ev" "p' = ?p2"
                    by simp_all
                  with b show "lb \<le>s Time e + minTraceTime t \<and>
                      parser_inv t (Time e + minTraceTime t) p' \<and>
                      Base e mod pageSize = 0 \<and> Size e mod pageSize = 0 \<and>
                      TimeStart t \<le>s Time e \<and> Time e \<le>s TimeEnd t"
                    by simp
                qed
              qed
            qed
          qed
        qed
      qed
    qed
  qed
  then show ?A and ?B and ?C
    by simp_all
qed

lemma MinInt64_least: "MinInt64 \<le>s x"
  using sint_ge [of x] by (simp add: word_sle_eq MinInt64_def)

lemma init_events_inv:
  assumes ss: "streams_sorted t"
  shows "init_pre t k p \<Longrightarrow> k \<le> length (blocks t) \<Longrightarrow>
    init_events [k..<length (blocks t)] p = (err, p') \<Longrightarrow> parser_inv t MinInt64 p'"
proof (induction "length (blocks t) - k" arbitrary: k p)
  case 0
  then have "k = length (blocks t)"
    by simp
  with 0 have "p' = p"
    by simp
  with 0(2) \<open>k = length (blocks t)\<close> show ?case
    by (simp add: init_pre_def parser_inv_def)
next
  case (Suc m)
  then have k: "k < length (blocks t)"
    by simp
  then have upt: "[k..<length (blocks t)] = k # [Suc k..<length (blocks t)]"
    by (simp add: upt_conv_Cons)
  obtain e er p1 where rf: "refreshEvent p k = ((e, er), p1)"
    by (metis surj_pair)
  let ?p2 = "p1\<lparr>events := (events p1)[k := e]\<rparr>"
  from Suc.prems(1) have len: "length (clocks p) = length (blocks t)"
    "length (events p) = length (blocks t)" "length (blocks (trace p)) = length (blocks t)"
    and rd: "r (trace p) = r t"
    and lo: "\<forall>i<k. slot_ok (r t) MinInt64 i (events p ! i) (clocks p ! i) (blocks (trace p) ! i)"
    and hi: "\<forall>i. k \<le> i \<and> i < length (blocks t) \<longrightarrow>
         events p ! i = event0 \<and> clocks p ! i = 0 \<and> blocks (trace p) ! i = blocks t ! i"
    by (simp_all add: init_pre_def)
  from hi k have at: "clocks p ! k = 0" "blocks (trace p) ! k = blocks t ! k"
    by simp_all
  from refreshEvent_slot [OF _ _ rf] k len obtain bl' c' where
    rb: "refresh_blocks (r t) k (blocks t ! k) (Some 0) = ((e, er), bl', Some c')"
    and bl: "blocks (trace p1) = (blocks (trace p))[k := bl']"
    and cl: "clocks p1 = (clocks p)[k := c']"
    by (auto simp: rd at)
  note fr = refreshEvent_frame [OF rf]
  from ss k have "stream_sorted (r t) k (blocks t ! k) (Some 0) MinInt64"
    by (simp add: streams_sorted_def list_all_iff)
  then have "\<not> failing (r t) k (blocks t ! k) 0 \<longrightarrow>
      stream_sorted (r t) k (blocks t ! k) (Some 0) MinInt64"
    by simp
  with rb have sk: "slot_ok (r t) MinInt64 k e c' bl'"
    by (rule slot_after_refresh)
  have base: "length (clocks ?p2) = length (blocks t) \<and> length (events ?p2) = length (blocks t) \<and>
      length (blocks (trace ?p2)) = length (blocks t) \<and> r (trace ?p2) = r t \<and>
      minTraceTime (trace ?p2) = minTraceTime t \<and> startTime (trace ?p2) = startTime t \<and>
      endTime (trace ?p2) = endTime t"
    using Suc.prems(1) fr by (simp add: init_pre_def)
  have lo2: "slot_ok (r t) MinInt64 i (events ?p2 ! i) (clocks ?p2 ! i) (blocks (trace ?p2) ! i)"
    if "i < Suc k" for i
  proof (cases "i = k")
    case True
    with sk k len fr bl cl show ?thesis
      by simp
  next
    case False
    with that have "i < k"
      by simp
    with lo False fr(5) bl cl show ?thesis
      by simp
  qed
  have hi2: "events ?p2 ! i = event0 \<and> clocks ?p2 ! i = 0 \<and> blocks (trace ?p2) ! i = blocks t ! i"
    if "Suc k \<le> i \<and> i < length (blocks t)" for i
    using that hi fr(5) bl cl by simp
  show ?case
  proof (cases er)
    case None
    with Suc.prems(3) rf have ie: "init_events [Suc k..<length (blocks t)] ?p2 = (err, p')"
      by (simp add: upt)
    have pre: "init_pre t (Suc k) ?p2"
      unfolding init_pre_def using base lo2 hi2 by blast
    from Suc.hyps(2) have m: "m = length (blocks t) - Suc k"
      by simp
    from k have "Suc k \<le> length (blocks t)"
      by simp
    from Suc.hyps(1) [OF m pre this ie] show ?thesis .
  next
    case (Some x)
    with Suc.prems(3) rf have p': "p' = ?p2"
      by (simp add: upt)
    have "slot_ok (r t) MinInt64 i (events ?p2 ! i) (clocks ?p2 ! i) (blocks (trace ?p2) ! i)"
      if "i < length (blocks t)" for i
    proof (cases "i < Suc k")
      case True
      then show ?thesis
        by (rule lo2)
    next
      case False
      with that hi2 [of i] show ?thesis
        by (simp add: slot_ok_def event0_def)
    qed
    with base show ?thesis
      unfolding p' parser_inv_def by blast
  qed
qed

lemma initialize_NewParser:
  assumes "streams_sorted t" and "initialize (NewParser t) = (err, p0)"
  shows "parser_inv t MinInt64 p0"
proof -
  let ?p = "(NewParser t)\<lparr>clocks := replicate (length (blocks t)) 0,
             events := replicate (length (blocks t)) event0\<rparr>"
  from assms(2) have ie: "init_events [0..<length (blocks t)] ?p = (err, p0)"
    by (simp add: initialize_def NewParser_def Trace_Clone_def)
  have "init_pre t 0 ?p"
    by (simp add: init_pre_def NewParser_def Trace_Clone_def)
  from init_events_inv [OF assms(1) this _ ie] show ?thesis
    by simp
qed

lemma initialize_id:
  assumes "parser_inv t lb p"
  shows "initialize p = (None, p)"
proof (cases "length (clocks p) = 0")
  case False
  then show ?thesis
    by (simp add: initialize_def)
next
  case True
  with assms have "length (blocks (trace p)) = 0 \<and> length (events p) = 0 \<and> length (clocks p) = 0"
    unfolding parser_inv_def by metis
  then have n: "length (blocks (trace p)) = 0" and ev: "events p = []" and cl: "clocks p = []"
    by simp_all
  have "p\<lparr>clocks := [], events := []\<rparr> = p"
    using ev cl by (cases p) simp
  with n cl show ?thesis
    by (simp add: initialize_def)
qed

lemma ready_NewParser: "streams_sorted t \<Longrightarrow> ready t MinInt64 (NewParser t)"
  unfolding ready_def using initialize_NewParser by (metis surj_pair)

lemma ready_inv: "parser_inv t lb p \<Longrightarrow> ready t lb p"
  unfolding ready_def using initialize_id by blast

lemma sle_trans: "a \<le>s b \<Longrightarrow> b \<le>s c \<Longrightarrow> a \<le>s c"
  by (simp add: word_sle_eq)

lemma parser_inv_mono:
  assumes "parser_inv t lb' p" and "lb \<le>s lb'"
  shows "parser_inv t lb p"
proof -
  have "slot_ok rd lb i e c bl" if "slot_ok rd lb' i e c bl" for rd i e c bl
    using that assms(2) by (auto simp: slot_ok_def split: option.splits intro: sle_trans)
  with assms(1) show ?thesis
    by (simp add: parser_inv_def)
qed

lemma Next_pass_ready:
  assumes "ready t lb p"
  shows "Next_pass p = Again p' \<longrightarrow> (\<exists>lb'. lb \<le>s lb' \<and> parser_inv t lb' p')"
    and "Next_pass p = Done (Inr e, p') \<longrightarrow>
      lb \<le>s Time e + minTraceTime t \<and> parser_inv t (Time e + minTraceTime t) p' \<and>
      Base e mod pageSize = 0 \<and> Size e mod pageSize = 0 \<and>
      TimeStart t \<le>s Time e \<and> Time e \<le>s TimeEnd t"
    and "Next_pass p = Done (Inl err, p') \<longrightarrow> err \<noteq> Panic \<longrightarrow> parser_inv t lb p'"
proof -
  from assms obtain ierr p0 where ini: "initialize p = (ierr, p0)" and inv: "parser_inv t lb p0"
    by (auto simp: ready_def)
  have "(Next_pass p = Again p' \<longrightarrow> (\<exists>lb'. lb \<le>s lb' \<and> parser_inv t lb' p')) \<and>
    (Next_pass p = Done (Inr e, p') \<longrightarrow>
      lb \<le>s Time e + minTraceTime t \<and> parser_inv t (Time e + minTraceTime t) p' \<and>
      Base e mod pageSize = 0 \<and> Size e mod pageSize = 0 \<and>
      TimeStart t \<le>s Time e \<and> Time e \<le>s TimeEnd t) \<and>
    (Next_pass p = Done (Inl err, p') \<longrightarrow> err \<noteq> Panic \<longrightarrow> parser_inv t lb p')"
  proof (cases ierr)
    case None
    with ini have "initialize p = (None, p0)"
      by simp
    from Next_pass_inv [OF inv this] show ?thesis
      by blast
  next
    case (Some x)
    with ini have "Next_pass p = Done (Inl x, p0)"
      by (simp add: Next_pass_def)
    with inv show ?thesis
      by auto
  qed
  then show "Next_pass p = Again p' \<longrightarrow> (\<exists>lb'. lb \<le>s lb' \<and> parser_inv t lb' p')"
    and "Next_pass p = Done (Inr e, p') \<longrightarrow>
      lb \<le>s Time e + minTraceTime t \<and> parser_inv t (Time e + minTraceTime t) p' \<and>
      Base e mod pageSize = 0 \<and> Size e mod pageSize = 0 \<and>
      TimeStart t \<le>s Time e \<and> Time e \<le>s TimeEnd t"
    and "Next_pass p = Done (Inl err, p') \<longrightarrow> err \<noteq> Panic \<longrightarrow> parser_inv t lb p'"
    by simp_all
qed

lemma Next_inv:
  assumes "Next p = Some res"
  shows "\<forall>lb. ready t lb p \<longrightarrow>
    (\<forall>e p'. res = (Inr e, p') \<longrightarrow>
       lb \<le>s Time e + minTraceTime t \<and> parser_inv t (Time e + minTraceTime t) p' \<and>
       Base e mod pageSize = 0 \<and> Size e mod pageSize = 0 \<and>
       TimeStart t \<le>s Time e \<and> Time e \<le>s TimeEnd t) \<and>
    (\<forall>err p'. res = (Inl err, p') \<longrightarrow> err \<noteq> Panic \<longrightarrow> parser_inv t lb p')"
proof (rule Next.raw_induct [where P = "\<lambda>p res. \<forall>lb. ready t lb p \<longrightarrow>
    (\<forall>e p'. res = (Inr e, p') \<longrightarrow>
       lb \<le>s Time e + minTraceTime t \<and> parser_inv t (Time e + minTraceTime t) p' \<and>
       Base e mod pageSize = 0 \<and> Size e mod pageSize = 0 \<and>
       TimeStart t \<le>s Time e \<and> Time e \<le>s TimeEnd t) \<and>
    (\<forall>err p'. res = (Inl err, p') \<longrightarrow> err \<noteq> Panic \<longrightarrow> parser_inv t lb p')", OF _ assms])
  fix nxt :: "Parser \<Rightarrow> ((perror + Event) \<times> Parser) option" and p res
  assume IH: "\<And>x y. nxt x = Some y \<Longrightarrow> \<forall>lb. ready t lb x \<longrightarrow>
    (\<forall>e p'. y = (Inr e, p') \<longrightarrow>
       lb \<le>s Time e + minTraceTime t \<and> parser_inv t (Time e + minTraceTime t) p' \<and>
       Base e mod pageSize = 0 \<and> Size e mod pageSize = 0 \<and>
       TimeStart t \<le>s Time e \<and> Time e \<le>s TimeEnd t) \<and>
    (\<forall>err p'. y = (Inl err, p') \<longrightarrow> err \<noteq> Panic \<longrightarrow> parser_inv t lb p')"
    and eq: "(case Next_pass p of Done res \<Rightarrow> Some res | Again p' \<Rightarrow> nxt p') = Some res"
  show "\<forall>lb. ready t lb p \<longrightarrow>
    (\<forall>e p'. res = (Inr e, p') \<longrightarrow>
       lb \<le>s Time e + minTraceTime t \<and> parser_inv t (Time e + minTraceTime t) p' \<and>
       Base e mod pageSize = 0 \<and> Size e mod pageSize = 0 \<and>
       TimeStart t \<le>s Time e \<and> Time e \<le>s TimeEnd t) \<and>
    (\<forall>err p'. res = (Inl err, p') \<longrightarrow> err \<noteq> Panic \<longrightarrow> parser_inv t lb p')"
  proof (intro allI impI)
    fix lb
    assume rdy: "ready t lb p"
    show "(\<forall>e p'. res = (Inr e, p') \<longrightarrow>
       lb \<le>s Time e + minTraceTime t \<and> parser_inv t (Time e + minTraceTime t) p' \<and>
       Base e mod pageSize = 0 \<and> Size e mod pageSize = 0 \<and>
       TimeStart t \<le>s Time e \<and> Time e \<le>s TimeEnd t) \<and>
      (\<forall>err p'. res = (Inl err, p') \<longrightarrow> err \<noteq> Panic \<longrightarrow> parser_inv t lb p')"
    proof (cases "Next_pass p")
      case (Done x)
      with eq have d: "Next_pass p = Done res"
        by simp
      show ?thesis
        using Next_pass_ready(2,3) [OF rdy] d by simp
    next
      case (Again q)
      with eq have n: "nxt q = Some res"
        by simp
      from Next_pass_ready(1) [OF rdy] Again obtain lb' where
        lb': "lb \<le>s lb'" and inv: "parser_inv t lb' q"
        by blast
      from IH [OF n] ready_inv [OF inv] have r:
        "(\<forall>e p'. res = (Inr e, p') \<longrightarrow>
           lb' \<le>s Time e + minTraceTime t \<and> parser_inv t (Time e + minTraceTime t) p' \<and>
           Base e mod pageSize = 0 \<and> Size e mod pageSize = 0 \<and>
           TimeStart t \<le>s Time e \<and> Time e \<le>s TimeEnd t) \<and>
         (\<forall>err p'. res = (Inl err, p') \<longrightarrow> err \<noteq> Panic \<longrightarrow> parser_inv t lb' p')"
        by blast
      show ?thesis
      proof (intro conjI allI impI)
        fix e p'
        assume "res = (Inr e, p')"
        with r have a: "lb' \<le>s Time e + minTraceTime t"
          "parser_inv t (Time e + minTraceTime t) p'"
          "Base e mod pageSize = 0" "Size e mod pageSize = 0"
          "TimeStart t \<le>s Time e" "Time e \<le>s TimeEnd t"
          by simp_all
        from lb' a(1) show "lb \<le>s Time e + minTraceTime t"
          by (rule sle_trans)
        from a show "parser_inv t (Time e + minTraceTime t) p'"
          "Base e mod pageSize = 0" "Size e mod pageSize = 0"
          "TimeStart t \<le>s Time e" "Time e \<le>s TimeEnd t"
          by simp_all
      next
        fix err p'
        assume "res = (Inl err, p')" "err \<noteq> Panic"
        with r have "parser_inv t lb' p'"
          by simp
        then show "parser_inv t lb p'"
          using lb' by (rule parser_inv_mono)
      qed
    qed
  qed
qed

lemma Next_seq_inv:
  "Next_seq p es p' \<Longrightarrow> ready t lb p \<Longrightarrow>
   (\<forall>e\<in>set es. lb \<le>s Time e + minTraceTime t \<and> Base e mod pageSize = 0 \<and>
      Size e mod pageSize = 0 \<and> TimeStart t \<le>s Time e \<and> Time e \<le>s TimeEnd t) \<and>
   sorted_wrt (\<lambda>a b. Time a + minTraceTime t \<le>s Time b + minTraceTime t) es"
proof (induction arbitrary: lb rule: Next_seq.induct)
  case (Next_seq_Nil p)
  then show ?case
    by simp
next
  case (Next_seq_Event p e p1 es p2)
  from Next_inv [OF Next_seq_Event.hyps(1), of t] Next_seq_Event.prems
  have a: "lb \<le>s Time e + minTraceTime t" "parser_inv t (Time e + minTraceTime t) p1"
    "Base e mod pageSize = 0" "Size e mod pageSize = 0"
    "TimeStart t \<le>s Time e" "Time e \<le>s TimeEnd t"
    by simp_all
  from Next_seq_Event.IH [OF ready_inv [OF a(2)]]
  have ih: "\<forall>x\<in>set es. Time e + minTraceTime t \<le>s Time x + minTraceTime t \<and>
      Base x mod pageSize = 0 \<and> Size x mod pageSize = 0 \<and>
      TimeStart t \<le>s Time x \<and> Time x \<le>s TimeEnd t"
    and so: "sorted_wrt (\<lambda>a b. Time a + minTraceTime t \<le>s Time b + minTraceTime t) es"
    by simp_all
  have "lb \<le>s Time x + minTraceTime t" if "x \<in> set es" for x
    using a(1) ih that by (blast intro: sle_trans)
  with a ih so show ?case
    by simp
next
  case (Next_seq_Error p err p1 es p2)
  from Next_inv [OF Next_seq_Error.hyps(1), of t] Next_seq_Error.prems Next_seq_Error.hyps(2)
  have "parser_inv t lb p1"
    by simp
  from Next_seq_Error.IH [OF ready_inv [OF this]] show ?case .
qed

text \<open>
  C1: let every processor's stream of the trace \<open>t\<close> have non-decreasing reconstructed
  timestamps, and let \<open>startTime t \<le> endTime t\<close> (which holds of every trace that \<open>NewTrace\<close>
  or \<open>Slice\<close> builds). Then the events that successive calls of \<open>Next\<close> on a new parser for
  \<open>t\<close> return are non-decreasing in \<open>Time\<close> (as signed 64-bit durations), and the \<open>Base\<close> and
  the \<open>Size\<close> of each are multiples of the page size, 8192.
\<close>

theorem C1_Next_sorted_aligned:
  assumes "streams_sorted t" and "startTime t \<le>s endTime t"
    and "Next_seq (NewParser t) es p'"
  shows "sorted_wrt (\<lambda>a b. Time a \<le>s Time b) es \<and>
    (\<forall>e\<in>set es. Base e mod pageSize = 0 \<and> Size e mod pageSize = 0)"
proof -
  note inv = Next_seq_inv [OF assms(3) ready_NewParser [OF assms(1)]]
  then have w: "\<forall>e\<in>set es. TimeStart t \<le>s Time e \<and> Time e \<le>s TimeEnd t"
    and al: "\<forall>e\<in>set es. Base e mod pageSize = 0 \<and> Size e mod pageSize = 0"
    and so: "sorted_wrt (\<lambda>a b. Time a + minTraceTime t \<le>s Time b + minTraceTime t) es"
    by simp_all
  have "Time a \<le>s Time b"
    if "a \<in> set es" "b \<in> set es" "Time a + minTraceTime t \<le>s Time b + minTraceTime t" for a b
  proof -
    let ?M = "minTraceTime t"
    have "(Time a + ?M) - ?M \<le>s (Time b + ?M) - ?M"
    proof (rule window_order [of "startTime t" "endTime t"])
      show "startTime t \<le>s endTime t"
        by (rule assms(2))
      show "startTime t - ?M \<le>s Time a + ?M - ?M" "Time a + ?M - ?M \<le>s endTime t - ?M"
        using w that(1) by (simp_all add: TimeStart_def TimeEnd_def)
      show "startTime t - ?M \<le>s Time b + ?M - ?M" "Time b + ?M - ?M \<le>s endTime t - ?M"
        using w that(2) by (simp_all add: TimeStart_def TimeEnd_def)
      show "Time a + ?M \<le>s Time b + ?M"
        by (rule that(3))
    qed
    then show ?thesis
      by simp
  qed
  with so have "sorted_wrt (\<lambda>a b. Time a \<le>s Time b) es"
    by (rule sorted_wrt_mono_rel [rotated])
  with al show ?thesis
    by simp
qed

lemma NewTrace_trace_P01: "NewTrace trace_P01 = Inr Trace_P01"
  by (simp add: index_eval codec_eval trace_P01_def Trace_P01_def word_sless_alt replicate_2)

lemma replicate_3: "replicate 3 x = [x, x, x]"
  by (simp add: numeral_3_eq_3)

lemma upt_3: "[0..<3] = [0, 1, 2]"
  by (simp add: numeral_3_eq_3 upt_rec)

lemmas parser_eval3 = parser_eval replicate_3 upt_3 Next_pass_def Parser_P01_def Trace_P01_def
  trace_P01_def word_sless_alt

lemma streams_sorted_P01: "streams_sorted Trace_P01"
  by (simp add: streams_sorted_def stream_sorted.simps parser_eval3 codec_eval MinInt64_def
      word_sle_eq)

lemma Next_P01_1:
  "Next (NewParser Trace_P01) =
     Some (Inr \<lparr>Kind = EventAllocate, P = 0, Time = 0, Base = 0x10000, Size = 0x4000\<rparr>,
           Parser_P01 [[], [], []]
             [event0, \<lparr>eventHeader = 0x2000000010012, npages = 2\<rparr>,
              \<lparr>eventHeader = 0x1000000020009, npages = 1\<rparr>])"
  by (subst Next.simps) (simp add: parser_eval3 codec_eval EventAllocate_def)

lemma Next_P01_2:
  "Next (Parser_P01 [[], [], []]
             [event0, \<lparr>eventHeader = 0x2000000010012, npages = 2\<rparr>,
              \<lparr>eventHeader = 0x1000000020009, npages = 1\<rparr>]) =
     Some (Inr \<lparr>Kind = EventAllocate, P = 1, Time = 128, Base = 0x20000, Size = 0x2000\<rparr>,
           Parser_P01 [[], [], []]
             [event0, \<lparr>eventHeader = 0x2000000010012, npages = 2\<rparr>, event0])"
  by (subst Next.simps) (simp add: parser_eval3 codec_eval EventAllocate_def)

lemma Next_P01_3:
  "Next (Parser_P01 [[], [], []]
             [event0, \<lparr>eventHeader = 0x2000000010012, npages = 2\<rparr>, event0]) =
     Some (Inr \<lparr>Kind = EventFree, P = 0, Time = 256, Base = 0x10000, Size = 0x4000\<rparr>,
           Parser_P01 [[], [], []] [event0, event0, event0])"
  by (subst Next.simps) (simp add: parser_eval3 codec_eval EventFree_def)

lemma write_cur_times:
  "ix_startTime (write_cur f ix) = ix_startTime ix" "ix_endTime (write_cur f ix) = ix_endTime ix"
  by (auto simp: write_cur_def split: option.splits)

lemma index_extents_times:
  assumes "index_extents e ix = Some (ix1, ct)"
  shows "ix_startTime ix1 = ix_startTime ix" and "ix_endTime ix1 = ix_endTime ix"
    and "kind e = sync \<longrightarrow> timestamp e = Some ct"
  using assms
  by (auto simp: index_extents_def Let_def split: if_splits option.splits prod.splits)

lemma index_word_order:
  assumes "index_word off w ix = Inr ix'" and "ix_startTime ix \<le>s ix_endTime ix"
  shows "ix_startTime ix' \<le>s ix_endTime ix'"
proof (cases "expectNpagesTrailer ix")
  case True
  with assms show ?thesis
    by (auto simp: index_word_def Let_def)
next
  case nt: False
  show ?thesis
  proof (cases "kind w = pid")
    case True
    with assms nt show ?thesis
      by (auto simp: index_word_def Let_def write_cur_times sync_def pid_def
          split: if_splits option.splits)
  next
    case False
    with assms(1) nt obtain ix1 ct where ex: "index_extents w ix = Some (ix1, ct)"
      by (auto simp: index_word_def split: option.splits)
    note f = index_extents_times [OF ex]
    let ?ix1 = "if ix_endTime ix1 <s ct then ix1\<lparr>ix_endTime := ct\<rparr> else ix1"
    have o1: "ix_startTime ?ix1 \<le>s ix_endTime ?ix1" "ct \<le>s ix_endTime ?ix1"
      using assms(2) f by (auto simp: word_sle_eq word_sless_alt)
    show ?thesis
    proof (cases "wantTime ?ix1")
      case wt: False
      with assms(1) nt False ex have "ix' = ?ix1"
        by (simp add: index_word_def)
      with o1 show ?thesis
        by simp
    next
      case True
      with assms(1) nt False ex have ks: "kind w = sync"
        by (auto simp: index_word_def split: if_splits)
      with f have t: "timestamp w = Some ct"
        by simp
      let ?ix2 = "if ix_startTime ?ix1 = 0 \<or> ct <s ix_startTime ?ix1
                  then ?ix1\<lparr>ix_startTime := ct\<rparr> else ?ix1"
      from assms(1) nt False ex True ks t
      have "ix' = (write_cur (\<lambda>iv. iv\<lparr>iv_startTime := ct\<rparr>) ?ix2)\<lparr>wantTime := False\<rparr>"
        by (simp add: index_word_def Let_def)
      then have "ix_startTime ix' = ix_startTime ?ix2" "ix_endTime ix' = ix_endTime ?ix2"
        by (simp_all add: write_cur_times)
      moreover have "ix_startTime ?ix2 \<le>s ix_endTime ?ix2"
        using o1 by auto
      ultimately show ?thesis
        by simp
    qed
  qed
qed

lemma index_words_order:
  "index_words off buf ix = Inr ix' \<Longrightarrow> ix_startTime ix \<le>s ix_endTime ix \<Longrightarrow>
   ix_startTime ix' \<le>s ix_endTime ix'"
proof (induction off buf ix rule: index_words.induct)
  case (1 off buf ix)
  show ?case
  proof (cases "length buf < 8")
    case True
    with "1.prems" show ?thesis
      by (subst (asm) index_words.simps) simp
  next
    case False
    with "1.prems"(1) obtain ix1 where s1: "index_word off (le64 (take 8 buf)) ix = Inr ix1"
      and rest: "index_words (off + 8) (drop 8 buf) ix1 = Inr ix'"
      by (subst (asm) index_words.simps) (auto split: sum.splits)
    from index_word_order [OF s1 "1.prems"(2)] have "ix_startTime ix1 \<le>s ix_endTime ix1" .
    from "1.IH" [OF False s1 rest this] show ?thesis .
  qed
qed

lemma index_chunks_order:
  "index_chunks rd cursor ix = Inr (ix', c') \<Longrightarrow> ix_startTime ix \<le>s ix_endTime ix \<Longrightarrow>
   ix_startTime ix' \<le>s ix_endTime ix'"
proof (induction rd cursor ix rule: index_chunks.induct)
  case (1 rd cursor ix)
  define buf where "buf = take 32768 (drop cursor rd)"
  define n where "n = length buf"
  have eq: "index_chunks rd cursor ix =
      (if n mod 8 \<noteq> 0 then Inl NotMultipleOf8
       else (case index_words (int cursor) buf ix of
               Inl err \<Rightarrow> Inl err
             | Inr ix1 \<Rightarrow> if n < 32768 then Inr (ix1, cursor + n)
                          else index_chunks rd (cursor + n) ix1))"
    unfolding n_def buf_def by (subst index_chunks.simps) (simp add: Let_def)
  from "1.prems"(1) have m8: "n mod 8 = 0"
    unfolding eq by (auto split: if_splits)
  with "1.prems"(1) obtain ix1 where w: "index_words (int cursor) buf ix = Inr ix1"
    and rest: "(if n < 32768 then Inr (ix1, cursor + n)
                else index_chunks rd (cursor + n) ix1) = Inr (ix', c')"
    unfolding eq by (auto split: sum.splits)
  from index_words_order [OF w "1.prems"(2)] have o1: "ix_startTime ix1 \<le>s ix_endTime ix1" .
  show ?case
  proof (cases "n < 32768")
    case True
    with rest o1 show ?thesis
      by simp
  next
    case False
    with rest have rr: "index_chunks rd (cursor + n) ix1 = Inr (ix', c')"
      by simp
    have nm: "\<not> n mod 8 \<noteq> 0"
      using m8 by simp
    show ?thesis
      using "1.IH" [OF buf_def n_def nm w False rr o1] .
  qed
qed

lemma NewTrace_time_order:
  assumes "NewTrace rd = Inr t"
  shows "startTime t \<le>s endTime t"
proof -
  from assms obtain ix c where ch: "index_chunks rd 0 indexer0 = Inr (ix, c)"
    and t: "startTime t = ix_startTime (write_cur (\<lambda>iv. iv\<lparr>iv_end := int c\<rparr>) ix)"
      "endTime t = ix_endTime (write_cur (\<lambda>iv. iv\<lparr>iv_end := int c\<rparr>) ix)"
    by (auto simp: NewTrace_def Let_def split: sum.splits prod.splits)
  have "ix_startTime indexer0 \<le>s ix_endTime indexer0"
    by (simp add: indexer0_def)
  from index_chunks_order [OF ch this] show ?thesis
    by (simp add: t write_cur_times)
qed

lemma Slice_time_order: "startTime (Slice t s e) \<le>s endTime (Slice t s e)"
  by (simp add: Slice_def Let_def word_sle_eq word_sless_alt)

text \<open>
  C1 on the trace of two processors: the three events come out merged by time, at 0, 128
  and 256.
\<close>

theorem C1_Next_sorted_aligned_witness:
  "streams_sorted Trace_P01 \<and> startTime Trace_P01 \<le>s endTime Trace_P01 \<and>
   Next_seq (NewParser Trace_P01)
     [\<lparr>Kind = EventAllocate, P = 0, Time = 0, Base = 0x10000, Size = 0x4000\<rparr>,
      \<lparr>Kind = EventAllocate, P = 1, Time = 128, Base = 0x20000, Size = 0x2000\<rparr>,
      \<lparr>Kind = EventFree, P = 0, Time = 256, Base = 0x10000, Size = 0x4000\<rparr>]
     (Parser_P01 [[], [], []] [event0, event0, event0]) \<and>
   sorted_wrt (\<lambda>a b. Time a \<le>s Time b)
     [\<lparr>Kind = EventAllocate, P = 0, Time = 0, Base = 0x10000, Size = 0x4000\<rparr>,
      \<lparr>Kind = EventAllocate, P = 1, Time = 128, Base = 0x20000, Size = 0x2000\<rparr>,
      \<lparr>Kind = EventFree, P = 0, Time = 256, Base = 0x10000, Size = 0x4000\<rparr>]"
proof -
  have h2: "startTime Trace_P01 \<le>s endTime Trace_P01"
    by (simp add: Trace_P01_def word_sle_eq)
  have h3: "Next_seq (NewParser Trace_P01)
     [\<lparr>Kind = EventAllocate, P = 0, Time = 0, Base = 0x10000, Size = 0x4000\<rparr>,
      \<lparr>Kind = EventAllocate, P = 1, Time = 128, Base = 0x20000, Size = 0x2000\<rparr>,
      \<lparr>Kind = EventFree, P = 0, Time = 256, Base = 0x10000, Size = 0x4000\<rparr>]
     (Parser_P01 [[], [], []] [event0, event0, event0])"
    by (rule Next_seq_Event [OF Next_P01_1] Next_seq_Event [OF Next_P01_2]
        Next_seq_Event [OF Next_P01_3] Next_seq_Nil)+
  from C1_Next_sorted_aligned [OF streams_sorted_P01 h2 h3] streams_sorted_P01 h2 h3
  show ?thesis
    by blast
qed

section \<open>The simulator: the two bitmaps have the same length\<close>

text \<open>
  \<open>update\<close> and \<open>Clone\<close> keep the two bitmaps equally long, and then neither \<open>IsAllocated\<close>
  nor \<open>IsScavenged\<close> indexes outside its bitmap.
\<close>

lemma grow_len_eq:
  assumes "len (allocBits s) = len (scavBits s)"
  shows "len (allocBits (grow s e)) = len (scavBits (grow s e))"
  using assms
  by (auto simp: grow_def Let_def extendBack_def extendFront_def MaxAddr_def MinAddr_def
      State_Size_def len_elems)

lemma update_len_eq:
  assumes "update s e = Some s'" and "len (allocBits s) = len (scavBits s)"
  shows "len (allocBits s') = len (scavBits s')"
proof -
  from assms(1) have run: "update_loop (Kind e)
      ((Base e + Size e - minAddr (grow s e)) div pageSize)
      ((Base e - minAddr (grow s e)) div pageSize) (grow s e) = Some s'"
    by (simp add: update_def Let_def)
  from run grow_len_eq [OF assms(2)] show ?thesis
  proof (rule update_loop_invariant [where Q = "\<lambda>s. len (allocBits s) = len (scavBits s)"])
    fix s a c j
    assume "len (allocBits s) = len (scavBits s)" "setBit (allocBits s) j = Some a"
      "clearBit (scavBits s) j = Some c"
    then show "len (allocBits (s\<lparr>allocBits := Some a, scavBits := Some c\<rparr>)) =
        len (scavBits (s\<lparr>allocBits := Some a, scavBits := Some c\<rparr>))"
      using setBit_len clearBit_len by simp
  next
    fix s a j
    assume "len (allocBits s) = len (scavBits s)" "clearBit (allocBits s) j = Some a"
    then show "len (allocBits (s\<lparr>allocBits := Some a\<rparr>)) = len (scavBits (s\<lparr>allocBits := Some a\<rparr>))"
      using clearBit_len by simp
  next
    fix s c j
    assume "len (allocBits s) = len (scavBits s)" "setBit (scavBits s) j = Some c"
    then show "len (allocBits (s\<lparr>scavBits := Some c\<rparr>)) = len (scavBits (s\<lparr>scavBits := Some c\<rparr>))"
      using setBit_len by simp
  qed
qed

lemma Clone_len_eq:
  "len (allocBits s) = len (scavBits s) \<Longrightarrow> len (allocBits (Clone s)) = len (scavBits (Clone s))"
  by (simp add: Clone_def len_def elems_def split: option.splits)

lemma IsScavenged_Some:
  assumes "len (allocBits s) = len (scavBits s)"
  shows "\<exists>b. IsScavenged s a = Some b"
  using index_in_range [of a "minAddr s" "len (allocBits s)"] assms
  by (auto simp: IsScavenged_def bitAt_def MinAddr_def MaxAddr_def State_Size_def)

section \<open>The merge parser: \<open>Next\<close> returns\<close>

text \<open>
  \<open>Next\<close> always returns: a pass that goes back to \<open>top\<close> has consumed a word of the trace
  or emptied a slot of pending events.
\<close>

lemma read8_blocks_unread:
  assumes "read8_blocks rd bl = ((u, err), bl')"
  shows "unread rd bl' \<le> unread rd bl \<and> (u \<noteq> 0 \<longrightarrow> unread rd bl' < unread rd bl)"
  using assms
  by (auto simp: read8_blocks_def unread_def ReadAt8_def Let_def
      split: list.splits option.splits if_splits)

lemma refresh_blocks_unread:
  "refresh_blocks rd pidx bl clk = ((e, err), bl', clk') \<Longrightarrow>
   unread rd bl' \<le> unread rd bl \<and> (eventHeader e \<noteq> 0 \<longrightarrow> unread rd bl' < unread rd bl)"
proof (induction rd pidx bl clk rule: refresh_blocks.induct)
  case (1 rd pidx bl clk)
  obtain u er bl1 where r1: "read8_blocks rd bl = ((u, er), bl1)"
    by (metis surj_pair)
  note d1 = read8_blocks_unread [OF r1]
  obtain n er2 bl2 where r2: "read8_blocks rd bl1 = ((n, er2), bl2)"
    by (metis surj_pair)
  note d2 = read8_blocks_unread [OF r2]
  show ?case
  proof (cases "er = None \<and> u \<noteq> 0 \<and> (kind u = sync \<or> kind u = pid)")
    case False
    with "1.prems" r1 r2 d1 d2 show ?thesis
      by (subst (asm) refresh_blocks.simps)
        (auto simp: event0_def split: option.splits if_splits bool.splits)
  next
    case True
    then have er: "er = None" and u: "u \<noteq> 0"
      by simp_all
    show ?thesis
    proof (cases "kind u = sync")
      case True
      show ?thesis
      proof (cases "timestamp u = None \<or> clk = None")
        case True
        with "1.prems" r1 er u \<open>kind u = sync\<close> d1 show ?thesis
          by (subst (asm) refresh_blocks.simps) (auto split: option.splits)
      next
        case False
        then obtain t c where t: "timestamp u = Some t" "clk = Some c"
          by auto
        with "1.prems" r1 er u \<open>kind u = sync\<close>
        have "refresh_blocks rd pidx bl1 (Some t) = ((e, err), bl', clk')"
          by (subst (asm) refresh_blocks.simps) simp
        from "1.IH"(1) [OF r1 [symmetric] refl _ u \<open>kind u = sync\<close> refl t(1) t(2) this] er d1 u
        show ?thesis
          by auto
      qed
    next
      case False
      with True have k: "kind u = pid"
        by simp
      show ?thesis
      proof (cases "\<exists>p. header_pid u = Some p \<and> pidIndex p = int pidx")
        case False
        with "1.prems" r1 er u k \<open>kind u \<noteq> sync\<close> d1 show ?thesis
          by (subst (asm) refresh_blocks.simps) (auto split: option.splits if_splits)
      next
        case True
        then obtain p where p: "header_pid u = Some p" "pidIndex p = int pidx"
          by auto
        with "1.prems" r1 er u k \<open>kind u \<noteq> sync\<close>
        have "refresh_blocks rd pidx bl1 clk = ((e, err), bl', clk')"
          by (subst (asm) refresh_blocks.simps) simp
        from "1.IH"(2) [OF r1 [symmetric] refl _ u \<open>kind u \<noteq> sync\<close> k p(1) _ this] er d1 u p(2)
        show ?thesis
          by auto
      qed
    qed
  qed
qed

lemma sum_list_map_update:
  fixes f :: "'a \<Rightarrow> nat"
  assumes "i < length xs"
  shows "(\<Sum>x\<leftarrow>xs[i := y]. f x) + f (xs ! i) = (\<Sum>x\<leftarrow>xs. f x) + f y"
proof -
  have "(\<Sum>x\<leftarrow>xs[i := y]. f x) = sum_list ((map f xs)[i := f y])"
    by (simp add: map_update)
  also have "\<dots> = sum_list (map f xs) + f y - map f xs ! i"
    using assms by (simp add: sum_list_update)
  finally have "(\<Sum>x\<leftarrow>xs[i := y]. f x) = sum_list (map f xs) + f y - f (xs ! i)"
    using assms by simp
  moreover have "f (xs ! i) \<le> sum_list (map f xs)"
    using assms by (simp add: member_le_sum_list)
  ultimately show ?thesis
    by simp
qed

lemma Next_pass_Again_pending:
  assumes ag: "Next_pass p = Again p'" and cl: "length (clocks p) \<noteq> 0"
  shows "pending p' < pending p \<and> length (clocks p') \<noteq> 0"
proof -
  from cl have ini: "initialize p = (None, p)"
    by (simp add: initialize_def)
  from ag ini obtain ts i e0 ev e' p1 where
    sel: "selectMin (clocks p) (events p) 0 (MaxInt64, 0, event0) = Some (ts, i, e0)"
    and ts: "ts \<noteq> MaxInt64"
    and rf: "refreshEvent p i = ((e', None), p1)"
    and p': "p' = p1\<lparr>events := (events p1)[i := e']\<rparr>"
    by (auto simp: Next_pass_def Let_def split: prod.splits option.splits if_splits)
  note s = selectMin_Next [OF sel ts]
  from rf have ib: "i < length (blocks (trace p))"
    by (auto simp: refreshEvent_def event0_def split: if_splits)
  obtain bl' clk' where rb: "refresh_blocks (r (trace p)) i (blocks (trace p) ! i)
      (if i < length (clocks p) then Some (clocks p ! i) else None) = ((e', None), bl', clk')"
    and bl: "blocks (trace p1) = (blocks (trace p))[i := bl']"
    using rf ib by (auto simp: refreshEvent_def split: prod.splits)
  note fr = refreshEvent_frame [OF rf]
  note un = refresh_blocks_unread [OF rb]
  let ?f = "unread (r (trace p))"
  let ?g = "\<lambda>e. if eventHeader e = 0 then 0 else (1::nat)"
  have b: "(\<Sum>x\<leftarrow>(blocks (trace p))[i := bl']. ?f x) + ?f (blocks (trace p) ! i) =
      (\<Sum>x\<leftarrow>blocks (trace p). ?f x) + ?f bl'"
    using ib by (rule sum_list_map_update)
  have e: "(\<Sum>x\<leftarrow>(events p)[i := e']. ?g x) + ?g (events p ! i) = (\<Sum>x\<leftarrow>events p. ?g x) + ?g e'"
    using s(1) by (rule sum_list_map_update)
  have g1: "?g (events p ! i) = 1"
    using s(2,3) by simp
  have "pending p' = (\<Sum>x\<leftarrow>(blocks (trace p))[i := bl']. ?f x) + (\<Sum>x\<leftarrow>(events p)[i := e']. ?g x)"
    by (simp add: pending_def p' bl fr)
  moreover have "pending p = (\<Sum>x\<leftarrow>blocks (trace p). ?f x) + (\<Sum>x\<leftarrow>events p. ?g x)"
    by (simp add: pending_def)
  moreover have "?f bl' + ?g e' < ?f (blocks (trace p) ! i) + 1"
    using un by auto
  ultimately have "pending p' < pending p"
    using b e g1 by linarith
  moreover have "length (clocks p') \<noteq> 0"
    using cl fr by (simp add: p')
  ultimately show ?thesis
    by simp
qed

lemma Next_returns_initialized:
  "length (clocks p) \<noteq> 0 \<Longrightarrow> \<exists>res. Next p = Some res"
proof (induction "pending p" arbitrary: p rule: less_induct)
  case less
  show ?case
  proof (cases "Next_pass p")
    case (Done res)
    then show ?thesis
      by (subst Next.simps) simp
  next
    case (Again p')
    from Next_pass_Again_pending [OF Again less.prems]
    have "pending p' < pending p" "length (clocks p') \<noteq> 0"
      by simp_all
    from less.hyps [OF this] Again show ?thesis
      by (subst Next.simps) simp
  qed
qed

lemma init_events_clocks:
  "init_events is p = (err, p') \<Longrightarrow> length (clocks p') = length (clocks p)"
proof (induction "is" arbitrary: p)
  case Nil
  then show ?case
    by simp
next
  case (Cons i "is")
  obtain e er p1 where rf: "refreshEvent p i = ((e, er), p1)"
    by (metis surj_pair)
  note fr = refreshEvent_frame [OF rf]
  show ?case
  proof (cases er)
    case None
    with Cons.prems rf have "init_events is (p1\<lparr>events := (events p1)[i := e]\<rparr>) = (err, p')"
      by simp
    from Cons.IH [OF this] fr show ?thesis
      by simp
  next
    case (Some x)
    with Cons.prems rf have "p' = p1\<lparr>events := (events p1)[i := e]\<rparr>"
      by simp
    with fr show ?thesis
      by simp
  qed
qed

lemma init_events_blocks:
  "init_events is p = (err, p') \<Longrightarrow> length (blocks (trace p')) = length (blocks (trace p))"
proof (induction "is" arbitrary: p)
  case Nil
  then show ?case
    by simp
next
  case (Cons i "is")
  obtain e er p1 where rf: "refreshEvent p i = ((e, er), p1)"
    by (metis surj_pair)
  note fr = refreshEvent_frame [OF rf]
  show ?case
  proof (cases er)
    case None
    with Cons.prems rf have "init_events is (p1\<lparr>events := (events p1)[i := e]\<rparr>) = (err, p')"
      by simp
    from Cons.IH [OF this] fr show ?thesis
      by simp
  next
    case (Some x)
    with Cons.prems rf have "p' = p1\<lparr>events := (events p1)[i := e]\<rparr>"
      by simp
    with fr show ?thesis
      by simp
  qed
qed

lemma Next_returns: "\<exists>res. Next p = Some res"
proof (cases "length (clocks p) = 0")
  case False
  then show ?thesis
    by (rule Next_returns_initialized)
next
  case True
  show ?thesis
  proof (cases "Next_pass p")
    case (Done res)
    then show ?thesis
      by (subst Next.simps) simp
  next
    case (Again p')
    then obtain p0 ts i e0 e' p1 where
      ini: "initialize p = (None, p0)"
      and rf: "refreshEvent p0 i = ((e', None), p1)"
      and p': "p' = p1\<lparr>events := (events p1)[i := e']\<rparr>"
      by (auto simp: Next_pass_def Let_def split: prod.splits option.splits if_splits)
    from rf have ib: "i < length (blocks (trace p0))"
      by (auto simp: refreshEvent_def event0_def split: if_splits)
    from ini True have ie: "init_events [0..<length (blocks (trace p))]
          (p\<lparr>clocks := replicate (length (blocks (trace p))) 0,
             events := replicate (length (blocks (trace p))) event0\<rparr>) = (None, p0)"
      by (simp add: initialize_def)
    from init_events_clocks [OF ie] init_events_blocks [OF ie]
    have "length (clocks p0) = length (blocks (trace p0))"
      by simp
    with ib refreshEvent_frame(7) [OF rf] have "length (clocks p') \<noteq> 0"
      by (auto simp: p')
    from Next_returns_initialized [OF this] Again show ?thesis
      by (subst Next.simps) simp
  qed
qed

section \<open>The simulator: a Free event fed twice\<close>

lemma update_loop_Free:
  "update_loop k lim i s = Some s' \<Longrightarrow> k = EventFree \<Longrightarrow>
     bitAt (allocBits s') j = (if i \<le> j \<and> j < lim then Some False else bitAt (allocBits s) j)"
proof (induction k lim i s rule: update_loop.induct)
  case (1 k lim i s)
  have ne: "k \<noteq> EventAllocate"
    using "1.prems"(2) by (simp add: EventAllocate_def EventFree_def)
  show ?case
  proof (cases "i < lim")
    case False
    with "1.prems" have "s' = s"
      by (subst (asm) update_loop.simps) simp
    with False show ?thesis
      by auto
  next
    case True
    from "1.prems" True ne obtain a where a: "clearBit (allocBits s) i = Some a"
      and rest: "update_loop k lim (i + 1) (s\<lparr>allocBits := Some a\<rparr>) = Some s'"
      by (subst (asm) update_loop.simps) (auto split: option.splits)
    have IH: "bitAt (allocBits s') j = (if i + 1 \<le> j \<and> j < lim then Some False else bitAt (Some a) j)"
      using "1.IH"(2) [OF True ne "1.prems"(2) a rest "1.prems"(2)] by simp
    show ?thesis
      using IH bitAt_clearBit [OF a, of j] range_step [OF True, of j]
      by auto
  qed
qed

lemma update_loop_Free_frame:
  assumes "update_loop EventFree lim i s = Some s'"
  shows "scavBits s' = scavBits s" and "len (allocBits s') = len (allocBits s)"
    and "allocBits s \<noteq> None \<longrightarrow> allocBits s' \<noteq> None"
proof -
  have ne: "EventFree \<noteq> EventAllocate" "EventFree \<noteq> EventScavenge"
    by (simp_all add: EventAllocate_def EventFree_def EventScavenge_def)
  have "scavBits s' = scavBits s \<and> len (allocBits s') = len (allocBits s) \<and>
      (allocBits s \<noteq> None \<longrightarrow> allocBits s' \<noteq> None)"
    using assms
  proof (rule update_loop_invariant [where Q = "\<lambda>t. scavBits t = scavBits s \<and>
      len (allocBits t) = len (allocBits s) \<and> (allocBits s \<noteq> None \<longrightarrow> allocBits t \<noteq> None)"])
    fix t :: State and a :: "8 word list" and j :: "64 word"
    assume "scavBits t = scavBits s \<and> len (allocBits t) = len (allocBits s) \<and>
        (allocBits s \<noteq> None \<longrightarrow> allocBits t \<noteq> None)"
      and "clearBit (allocBits t) j = Some a"
    then show "scavBits (t\<lparr>allocBits := Some a\<rparr>) = scavBits s \<and>
        len (allocBits (t\<lparr>allocBits := Some a\<rparr>)) = len (allocBits s) \<and>
        (allocBits s \<noteq> None \<longrightarrow> allocBits (t\<lparr>allocBits := Some a\<rparr>) \<noteq> None)"
      using clearBit_len by simp
  qed (use ne in simp_all)
  then show "scavBits s' = scavBits s" and "len (allocBits s') = len (allocBits s)"
    and "allocBits s \<noteq> None \<longrightarrow> allocBits s' \<noteq> None"
    by simp_all
qed

lemma and_not_id:
  fixes x m :: "8 word"
  assumes "x AND m = 0"
  shows "x AND NOT m = x"
proof (rule bit_word_eqI)
  fix n
  assume "n < LENGTH(8)"
  from assms have "bit (x AND m) n = bit (0 :: 8 word) n"
    by simp
  then have "\<not> (bit x n \<and> bit m n)"
    by (simp add: bit_and_iff)
  with \<open>n < LENGTH(8)\<close> show "bit (x AND NOT m) n = bit x n"
    by (auto simp: bit_and_iff bit_not_iff)
qed

lemma clearBit_clear:
  assumes "bitAt bits j = Some False"
  shows "clearBit bits j = bits"
proof -
  from assms have r: "unat (j div 8) < len bits"
    and z: "elems bits ! unat (j div 8) AND push_bit (unat (j mod 8)) 1 = 0"
    by (auto simp: bitAt_def split: if_splits)
  from r obtain xs where xs: "bits = Some xs"
    by (cases bits) (simp_all add: len_def)
  from z have "elems bits ! unat (j div 8) AND NOT (push_bit (unat (j mod 8)) 1) =
      elems bits ! unat (j div 8)"
    by (rule and_not_id)
  with r show ?thesis
    by (simp add: clearBit_def xs)
qed

lemma update_loop_Free_idem:
  "k = EventFree \<Longrightarrow> \<forall>j. i \<le> j \<and> j < lim \<longrightarrow> bitAt (allocBits s) j = Some False \<Longrightarrow>
   update_loop k lim i s = Some s"
proof (induction k lim i s rule: update_loop.induct)
  case (1 k lim i s)
  have ne: "k \<noteq> EventAllocate"
    using "1.prems"(1) by (simp add: EventAllocate_def EventFree_def)
  show ?case
  proof (cases "i < lim")
    case False
    then show ?thesis
      by (subst update_loop.simps) simp
  next
    case True
    with "1.prems"(2) have "bitAt (allocBits s) i = Some False"
      by simp
    then have c: "clearBit (allocBits s) i = allocBits s"
      by (rule clearBit_clear)
    from \<open>bitAt (allocBits s) i = Some False\<close> obtain a where a: "allocBits s = Some a"
      by (cases "allocBits s") (simp_all add: bitAt_def len_def)
    have s: "s\<lparr>allocBits := Some a\<rparr> = s"
      using a by simp
    have c': "clearBit (allocBits s) i = Some a"
      using c a by simp
    have "\<forall>j. i + 1 \<le> j \<and> j < lim \<longrightarrow> bitAt (allocBits (s\<lparr>allocBits := Some a\<rparr>)) j = Some False"
      using "1.prems"(2) range_step [OF True] s by simp
    from "1.IH"(2) [OF True ne "1.prems"(1) c' "1.prems"(1) this]
    have "update_loop k lim (i + 1) (s\<lparr>allocBits := Some a\<rparr>) = Some s"
      by (simp only: s)
    with True ne "1.prems"(1) c' show ?thesis
      by (subst update_loop.simps) simp
  qed
qed

lemma and_not_7: "x AND - 8 = push_bit 3 (drop_bit 3 x)" for x :: "64 word"
proof (rule bit_word_eqI)
  fix n
  assume "n < LENGTH(64)"
  have m: "(- 8 :: 64 word) = NOT (mask 3)"
    using minus_exp_eq_not_mask [of 3, where ?'a = "64 word"] by simp
  show "bit (x AND - 8) n = bit (push_bit 3 (drop_bit 3 x)) n"
  proof (cases "3 \<le> n")
    case True
    then have "3 + (n - 3) = n"
      by simp
    then show ?thesis
      unfolding m using True \<open>n < LENGTH(64)\<close>
      by (simp add: bit_and_iff bit_not_iff bit_mask_iff bit_push_bit_iff bit_drop_bit_eq)
  next
    case False
    then show ?thesis
      unfolding m by (simp add: bit_and_iff bit_not_iff bit_mask_iff bit_push_bit_iff)
  qed
qed

lemma unat_and_not_7: "unat (x AND - 8) = unat x div 8 * 8" for x :: "64 word"
proof -
  have d: "unat (drop_bit 3 x) = unat x div 8"
    by (simp add: drop_bit_eq_div unat_div)
  have "unat x < 2 ^ 64"
    using unsigned_less [of x] by simp
  moreover have "unat x div 8 * 8 \<le> unat x"
    by simp
  ultimately have "unat x div 8 * 8 < 2 ^ 64"
    by (rule order_le_less_trans [rotated])
  then show ?thesis
    unfolding and_not_7 using d by (simp add: push_bit_eq_mult unat_word_ariths)
qed

lemma bitmapSize_aligned:
  assumes "S mod pageSize = 0"
  shows "bitmapSize B (B + S) = (unat (S div pageSize) + 7) div 8"
proof -
  from assms have a: "unat S mod 8192 = 0"
    by (simp add: aligned_iff)
  have up: "alignUp S pageSize = S"
    using a by (rule alignUp_aligned)
  let ?p = "S div pageSize"
  have p: "unat ?p = unat S div 8192"
    by (simp add: unat_div pageSize_8192)
  have "unat S < 2 ^ 64"
    using unsigned_less [of S] by simp
  then have "unat S div 8192 < 2 ^ 64 div 8192"
    using a by (simp add: mod_eq_0_iff_dvd less_mult_imp_div_less)
  then have ps: "unat ?p + 7 < 2 ^ 64"
    using p by simp
  have "unat (7 + ?p) = (7 + unat ?p) mod 2 ^ 64"
    by (simp add: unat_word_ariths)
  with ps have u7: "unat (7 + ?p) = unat ?p + 7"
    by simp
  have "alignUp ?p 8 = (7 + ?p) AND - 8"
    by (simp add: alignUp_def)
  then have "unat (alignUp ?p 8 div 8) = unat ((7 + ?p) AND - 8) div 8"
    by (simp add: unat_div)
  also have "\<dots> = (unat ?p + 7) div 8"
    by (simp add: unat_and_not_7 u7)
  finally show ?thesis
    by (simp add: bitmapSize_def up)
qed

lemma grow_alloc_Some: "allocBits (grow s e) \<noteq> None"
  by (auto simp: grow_def Let_def extendBack_def extendFront_def)

lemma grow_minAddr_le: "minAddr (grow s e) \<le> Base e"
  by (auto simp: grow_def Let_def MinAddr_def)

lemma extendBack_len: "n \<le> len (extendBack bits n)"
  by (simp add: extendBack_def len_elems)

lemma update_Free_covers:
  assumes fr: "Kind e = EventFree" and al: "Size e mod pageSize = 0"
    and up: "update s e = Some s1"
    and mx: "MaxAddr (grow s e) < Base e + Size e"
  shows "bitmapSize (minAddr (grow s e)) (Base e + Size e) \<le> len (allocBits (grow s e))"
proof (cases "allocBits s = None")
  case True
  then show ?thesis
    by (simp add: grow_def Let_def)
next
  case nn: False
  show ?thesis
  proof (cases "Base e < minAddr s")
    case False
    show ?thesis
    proof (cases "MaxAddr s < Base e + Size e")
      case True
      with nn False show ?thesis
        by (auto simp: grow_def Let_def MinAddr_def extendBack_len)
    next
      case nb: False
      with nn False have "grow s e = s"
        by (auto simp: grow_def Let_def MinAddr_def)
      with mx nb show ?thesis
        by simp
    qed
  next
    case True
    with nn have m: "minAddr (grow s e) = Base e"
      by (auto simp: grow_def Let_def MinAddr_def)
    let ?g = "grow s e"
    let ?lim = "Size e div pageSize"
    from up fr m have run: "update_loop EventFree ?lim 0 ?g = Some s1"
      by (simp add: update_def Let_def)
    have bits: "bitAt (allocBits s1) j = (if 0 \<le> j \<and> j < ?lim then Some False else bitAt (allocBits ?g) j)"
      for j
      using update_loop_Free [OF run] by simp
    have len: "len (allocBits s1) = len (allocBits ?g)"
      using update_loop_Free_frame(2) [OF run] .
    have "(unat ?lim + 7) div 8 \<le> len (allocBits ?g)"
    proof (cases "?lim = 0")
      case True
      then show ?thesis
        by simp
    next
      case False
      then have pos: "0 < unat ?lim"
        by (simp add: unat_gt_0)
      then have "?lim - 1 < ?lim"
        using False by (simp add: word_less_nat_alt unat_minus_one)
      with bits [of "?lim - 1"] have "bitAt (allocBits s1) (?lim - 1) = Some False"
        by simp
      then have "unat ((?lim - 1) div 8) < len (allocBits s1)"
        by (auto simp: bitAt_def split: if_splits)
      moreover have "unat ((?lim - 1) div 8) = (unat ?lim - 1) div 8"
        using False by (simp add: unat_div unat_minus_one)
      ultimately have "(unat ?lim - 1) div 8 < len (allocBits ?g)"
        using len by simp
      moreover have "(unat ?lim + 7) div 8 = (unat ?lim - 1) div 8 + 1"
      proof -
        have "unat ?lim + 7 = (unat ?lim - 1) + 8"
          using pos by simp
        then show ?thesis
          by (simp only: div_add_self2)
      qed
      ultimately show ?thesis
        by simp
    qed
    then show ?thesis
      unfolding m bitmapSize_aligned [OF al] .
  qed
qed

lemma grow_again:
  assumes "MaxAddr g < Base e + Size e \<longrightarrow>
      bitmapSize (minAddr g) (Base e + Size e) \<le> len (allocBits g) \<and>
      bitmapSize (minAddr g) (Base e + Size e) \<le> len (scavBits g)"
    and "minAddr s1 = minAddr g" and "len (allocBits s1) = len (allocBits g)"
    and "scavBits s1 = scavBits g" and "allocBits s1 \<noteq> None" and "minAddr g \<le> Base e"
  shows "grow s1 e = s1"
proof -
  have mx: "MaxAddr s1 = MaxAddr g"
    using assms(2,3) by (simp add: MaxAddr_def State_Size_def)
  have nl: "\<not> Base e < minAddr s1"
    using assms(2,6) by simp
  show ?thesis
  proof (cases "MaxAddr s1 < Base e + Size e")
    case False
    with assms(5) nl show ?thesis
      by (auto simp: grow_def Let_def MinAddr_def)
  next
    case True
    with assms(1) mx have "\<not> len (allocBits s1) < bitmapSize (minAddr s1) (Base e + Size e)"
      "\<not> len (scavBits s1) < bitmapSize (minAddr s1) (Base e + Size e)"
      using assms(2,3,4) by simp_all
    with True assms(5) nl show ?thesis
      by (auto simp: grow_def Let_def MinAddr_def extendBack_def)
  qed
qed

text \<open>
  C8: let \<open>e\<close> be a Free event whose size is a whole number of pages, and let the two
  bitmaps of the state be equally long (as \<open>update\<close> and \<open>Clone\<close> keep them). If \<open>Feed\<close> of
  \<open>e\<close> returns, a second \<open>Feed\<close> of \<open>e\<close> returns the very same simulator: the alloc bits,
  the scav bits, \<open>minAddr\<close>, the lengths of the bitmaps and the clock are those that the
  first \<open>Feed\<close> left.
\<close>

theorem C8_Feed_Free_twice:
  assumes fr: "Kind e = EventFree" and al: "Size e mod pageSize = 0"
    and eq: "len (allocBits (state sim)) = len (scavBits (state sim))"
    and f1: "Feed sim e = Some sim1"
  shows "Feed sim1 e = Some sim1"
proof -
  let ?s = "state sim"
  let ?g = "grow ?s e"
  from f1 obtain s1 where up: "update ?s e = Some s1"
    and sim1: "sim1 = sim\<lparr>clock := Time e, state := s1\<rparr>"
    by (auto simp: Feed_def split: option.splits)
  let ?lim = "(Base e + Size e - minAddr ?g) div pageSize"
  let ?off = "(Base e - minAddr ?g) div pageSize"
  from up fr have run: "update_loop EventFree ?lim ?off ?g = Some s1"
    by (simp add: update_def Let_def)
  have m: "minAddr s1 = minAddr ?g"
    using run by (rule update_loop_minAddr)
  note f = update_loop_Free_frame [OF run]
  have ln: "len (allocBits ?g) = len (scavBits ?g)"
    using eq by (rule grow_len_eq)
  have cov: "MaxAddr ?g < Base e + Size e \<longrightarrow>
      bitmapSize (minAddr ?g) (Base e + Size e) \<le> len (allocBits ?g) \<and>
      bitmapSize (minAddr ?g) (Base e + Size e) \<le> len (scavBits ?g)"
    using update_Free_covers [OF fr al up] ln by simp
  have ns: "allocBits s1 \<noteq> None"
    using f(3) grow_alloc_Some by simp
  have g1: "grow s1 e = s1"
    using cov m f(2) f(1) ns grow_minAddr_le by (rule grow_again)
  have "\<forall>j. ?off \<le> j \<and> j < ?lim \<longrightarrow> bitAt (allocBits s1) j = Some False"
    using update_loop_Free [OF run] by simp
  with fr have "update_loop (Kind e) ?lim ?off s1 = Some s1"
    by (intro update_loop_Free_idem) simp_all
  then have "update s1 e = Some s1"
    by (simp add: update_def Let_def g1 m)
  then show ?thesis
    by (simp add: Feed_def sim1)
qed

text \<open>
  C8 on a Free of eight pages in front of the tracked range: the first \<open>Feed\<close> lowers
  \<open>minAddr\<close> and clears the eight bits, the second changes nothing.
\<close>

theorem C8_Feed_Free_twice_witness:
  "Kind \<lparr>Kind = EventFree, P = 0, Time = 1, Base = 0x80000, Size = 0x10000\<rparr> = EventFree \<and>
   Size \<lparr>Kind = EventFree, P = 0, Time = 1, Base = 0x80000, Size = 0x10000\<rparr> mod pageSize = 0 \<and>
   len (allocBits (state \<lparr>clock = 0, state = \<lparr>minAddr = 0x100000, allocBits = Some [255], scavBits = Some [0]\<rparr>\<rparr>)) =
   len (scavBits (state \<lparr>clock = 0, state = \<lparr>minAddr = 0x100000, allocBits = Some [255], scavBits = Some [0]\<rparr>\<rparr>)) \<and>
   Feed \<lparr>clock = 0, state = \<lparr>minAddr = 0x100000, allocBits = Some [255], scavBits = Some [0]\<rparr>\<rparr>
        \<lparr>Kind = EventFree, P = 0, Time = 1, Base = 0x80000, Size = 0x10000\<rparr>
     = Some \<lparr>clock = 1, state = \<lparr>minAddr = 0x80000, allocBits = Some [0], scavBits = Some [0]\<rparr>\<rparr> \<and>
   Feed \<lparr>clock = 1, state = \<lparr>minAddr = 0x80000, allocBits = Some [0], scavBits = Some [0]\<rparr>\<rparr>
        \<lparr>Kind = EventFree, P = 0, Time = 1, Base = 0x80000, Size = 0x10000\<rparr>
     = Some \<lparr>clock = 1, state = \<lparr>minAddr = 0x80000, allocBits = Some [0], scavBits = Some [0]\<rparr>\<rparr>"
proof -
  let ?e = "\<lparr>Kind = EventFree, P = 0, Time = 1, Base = 0x80000, Size = 0x10000\<rparr>"
  let ?sim = "\<lparr>clock = 0, state = \<lparr>minAddr = 0x100000, allocBits = Some [255], scavBits = Some [0]\<rparr>\<rparr>"
  let ?sim1 = "\<lparr>clock = 1, state = \<lparr>minAddr = 0x80000, allocBits = Some [0], scavBits = Some [0]\<rparr>\<rparr>"
  have k: "Kind ?e = EventFree"
    by simp
  have a: "Size ?e mod pageSize = 0"
    by (simp add: pageSize_def pageShift_def)
  have l: "len (allocBits (state ?sim)) = len (scavBits (state ?sim))"
    by simp
  have f: "Feed ?sim ?e = Some ?sim1"
    by (simp add: sim_eval)
  from C8_Feed_Free_twice [OF k a l f] k a l f show ?thesis
    by (intro conjI)
qed

section \<open>The parser on a sliced trace\<close>

text \<open>
  C5: the code on a sliced trace. \<open>NewTrace\<close> leaves the \<open>endTime\<close> of every interval at 0
  (at a Pid word \<open>curTime\<close> is still 0, and the last interval's \<open>endTime\<close> is never set), so
  the filter of \<open>Slice\<close>, which drops an interval whose \<open>endTime\<close> is less than the start of
  the slice, drops them all. For the trace of two processors, whose events have the times
  0, 128 and 256, the slice from 0 to 256 has \<open>TimeStart = 0\<close> and \<open>TimeEnd = 256\<close> and no
  interval: \<open>Next\<close> on it returns \<open>EndOfStream\<close> at once, and none of the three events, which
  \<open>Next\<close> returns on the trace itself.
\<close>

theorem C5_Slice_drops_events:
  "NewTrace trace_P01 = Inr Trace_P01 \<and>
   Slice Trace_P01 0 256 = Trace_P01\<lparr>blocks := [[], [], []]\<rparr> \<and>
   TimeStart (Slice Trace_P01 0 256) = 0 \<and> TimeEnd (Slice Trace_P01 0 256) = 256 \<and>
   Next (NewParser (Slice Trace_P01 0 256)) =
     Some (Inl EndOfStream,
           \<lparr>trace = Trace_Clone (Slice Trace_P01 0 256), clocks = [0, 0, 0],
            events = [event0, event0, event0]\<rparr>) \<and>
   Next (NewParser Trace_P01) =
     Some (Inr \<lparr>Kind = EventAllocate, P = 0, Time = 0, Base = 0x10000, Size = 0x4000\<rparr>,
           Parser_P01 [[], [], []]
             [event0, \<lparr>eventHeader = 0x2000000010012, npages = 2\<rparr>,
              \<lparr>eventHeader = 0x1000000020009, npages = 1\<rparr>]) \<and>
   Next (Parser_P01 [[], [], []]
             [event0, \<lparr>eventHeader = 0x2000000010012, npages = 2\<rparr>,
              \<lparr>eventHeader = 0x1000000020009, npages = 1\<rparr>]) =
     Some (Inr \<lparr>Kind = EventAllocate, P = 1, Time = 128, Base = 0x20000, Size = 0x2000\<rparr>,
           Parser_P01 [[], [], []]
             [event0, \<lparr>eventHeader = 0x2000000010012, npages = 2\<rparr>, event0]) \<and>
   Next (Parser_P01 [[], [], []]
             [event0, \<lparr>eventHeader = 0x2000000010012, npages = 2\<rparr>, event0]) =
     Some (Inr \<lparr>Kind = EventFree, P = 0, Time = 256, Base = 0x10000, Size = 0x4000\<rparr>,
           Parser_P01 [[], [], []] [event0, event0, event0])"
proof -
  have sl: "Slice Trace_P01 0 256 = Trace_P01\<lparr>blocks := [[], [], []]\<rparr>"
    by (simp add: Slice_def Trace_P01_def Let_def word_sless_alt word_sle_eq replicate_3)
  have ts: "TimeStart (Slice Trace_P01 0 256) = 0" "TimeEnd (Slice Trace_P01 0 256) = 256"
    unfolding sl by (simp_all add: TimeStart_def TimeEnd_def Trace_P01_def)
  have nx: "Next (NewParser (Slice Trace_P01 0 256)) =
     Some (Inl EndOfStream,
           \<lparr>trace = Trace_Clone (Slice Trace_P01 0 256), clocks = [0, 0, 0],
            events = [event0, event0, event0]\<rparr>)"
    unfolding sl by (subst Next.simps) (simp add: parser_eval3 codec_eval)
  from NewTrace_trace_P01 sl ts nx Next_P01_1 Next_P01_2 Next_P01_3 show ?thesis
    by (intro conjI)
qed

end
